theory Spec2Isabelle
  imports Main "HOL-Library.Word" "HOL-Library.Multiset"
begin

section \<open>Memory, pointers and buffer descriptors\<close>

text \<open>
  The sizes of the source are \<^verbatim>\<open>size_t\<close>: 64-bit unsigned integers whose addition
  wraps around. Bytes are \<^verbatim>\<open>uint8_t\<close>.
\<close>

type_synonym size_t = "64 word"
type_synonym uint8_t = "8 word"

datatype device_type_t = CPU | GPU

text \<open>
  A pointer is an allocation together with a byte offset into it. The allocations are the
  memory regions of the caller (numbered) and the backing stores of the staging buffers
  that the executor keeps in its two pools, named by pool and key.
\<close>

datatype region = Caller nat | Staging device_type_t string

datatype ptr = Ptr region nat

fun ptr_region :: "ptr \<Rightarrow> region" where
  "ptr_region (Ptr r i) = r"

fun ptr_offset :: "ptr \<Rightarrow> nat" where
  "ptr_offset (Ptr r i) = i"

text \<open>Pointer arithmetic \<^verbatim>\<open>p + n\<close> on a \<^verbatim>\<open>char*\<close> or \<^verbatim>\<open>uint8_t*\<close>.\<close>

fun ptr_add :: "ptr \<Rightarrow> size_t \<Rightarrow> ptr" where
  "ptr_add (Ptr r i) n = Ptr r (i + unat n)"

text \<open>
  \<^verbatim>\<open>IBufferDescr\<close> and \<^verbatim>\<open>OBufferDescr\<close> (declared in \<^verbatim>\<open>io_descriptor.h\<close>): the fields
  that \<^verbatim>\<open>IOBuffer::GetDescr\<close> assigns.
\<close>

record BufferDescr =
  data :: ptr
  size_d :: size_t
  device :: device_type_t
  device_id :: int

section \<open>The staging buffer: \<^verbatim>\<open>IOBuffer\<close>\<close>

text \<open>
  \<^verbatim>\<open>buffer_t<uint8_t, Dev>\<close> is \<^verbatim>\<open>std::vector<uint8_t>\<close> on the host and a device buffer on
  the accelerator. It is modelled by the allocation it owns (what \<^verbatim>\<open>data()\<close> points to)
  and the bytes it holds; \<^verbatim>\<open>size()\<close> is the number of bytes.
\<close>

record buffer_t =
  vec_data :: region
  vec_elems :: "uint8_t list"

definition vec_size :: "buffer_t \<Rightarrow> size_t" where
  "vec_size v = of_nat (length (vec_elems v))"

text \<open>
  \<^verbatim>\<open>resize(n)\<close>: the first \<^verbatim>\<open>n\<close> bytes are kept, new bytes are zero. The allocator is
  taken to succeed.
\<close>

definition vec_resize :: "buffer_t \<Rightarrow> size_t \<Rightarrow> buffer_t" where
  "vec_resize v n =
     v\<lparr>vec_elems := take (unat n) (vec_elems v) @ replicate (unat n - length (vec_elems v)) 0\<rparr>"

text \<open>The members of \<^verbatim>\<open>IOBuffer<Dev>\<close>, with the template parameter as a field.\<close>

record IOBuffer =
  Dev :: device_type_t
  buffer :: buffer_t
  filled :: size_t
  buf_device_id :: int

text \<open>
  A C++ exception, by whether its class derives from \<^verbatim>\<open>std::runtime_error\<close>, with its
  message. The ways an operation ends other than by returning: a failed \<^verbatim>\<open>ENFORCE\<close>, a
  failed \<^verbatim>\<open>assert\<close>, a copy outside an allocation, an exception that reaches the caller.
  The assertions of the source are taken to be compiled in: a failed \<^verbatim>\<open>assert\<close> ends the
  call, and what is recorded with it is the state at that point.
\<close>

datatype exception = RuntimeError string | OtherException string

datatype failure =
    EnforceFailure
  | AssertionFailure
  | MemoryFault
  | Thrown exception

text \<open>
  The constructor \<^verbatim>\<open>IOBuffer(size_t size = 0)\<close>. The allocation is named by the caller of
  the constructor; \<^verbatim>\<open>cur_device\<close> is what \<^verbatim>\<open>cudaGetDevice\<close> reports.
\<close>

definition IOBuffer_new :: "device_type_t \<Rightarrow> region \<Rightarrow> int \<Rightarrow> size_t \<Rightarrow> IOBuffer" where
  "IOBuffer_new dev r cur_device n =
     \<lparr>Dev = dev,
      buffer = vec_resize \<lparr>vec_data = r, vec_elems = []\<rparr> n,
      filled = 0,
      buf_device_id = (if dev = GPU then cur_device else 0)\<rparr>"

definition Capacity :: "IOBuffer \<Rightarrow> size_t" where
  "Capacity b = vec_size (buffer b)"

text \<open>
  \<^verbatim>\<open>Allocate\<close>: the \<^verbatim>\<open>ENFORCE\<close> compares the \<^verbatim>\<open>size_t\<close> sum \<^verbatim>\<open>filled_ + size\<close> with the
  capacity; when it fails nothing has been changed. The result is the outcome together
  with the buffer afterwards.
\<close>

definition Allocate :: "IOBuffer \<Rightarrow> size_t \<Rightarrow> (failure + ptr) \<times> IOBuffer" where
  "Allocate b n =
     (if filled b + n \<le> vec_size (buffer b)
      then (Inr (ptr_add (Ptr (vec_data (buffer b)) 0) (filled b)), b\<lparr>filled := filled b + n\<rparr>)
      else (Inl EnforceFailure, b))"

definition Clear :: "IOBuffer \<Rightarrow> IOBuffer" where
  "Clear b = b\<lparr>filled := 0\<rparr>"

definition Reserve :: "IOBuffer \<Rightarrow> size_t \<Rightarrow> (failure + unit) \<times> IOBuffer" where
  "Reserve b n =
     (if n > vec_size (buffer b)
      then (if filled b = 0
            then (Inr (), b\<lparr>buffer := vec_resize (buffer b) n\<rparr>)
            else (Inl EnforceFailure, b))
      else (Inr (), b))"

definition DeviceType :: "IOBuffer \<Rightarrow> device_type_t" where
  "DeviceType b = Dev b"

definition GetDescr :: "IOBuffer \<Rightarrow> BufferDescr" where
  "GetDescr b =
     \<lparr>data = Ptr (vec_data (buffer b)) 0,
      size_d = filled b,
      device = Dev b,
      device_id = buf_device_id b\<rparr>"

section \<open>Descriptors of inputs and outputs\<close>

text \<open>
  \<^verbatim>\<open>io_descriptor.h\<close> and the DALI headers are not part of the sources at hand. The types
  are modelled by what the executor reads of them: of a \<^verbatim>\<open>TensorListShape\<close> the results of
  \<^verbatim>\<open>num_samples()\<close> and \<^verbatim>\<open>num_elements()\<close> (the latter as the \<^verbatim>\<open>size_t\<close> it is converted to
  in the product with the element size); a \<^verbatim>\<open>dali_data_type_t\<close> is its enumeration code.
\<close>

type_synonym dali_data_type_t = nat

record TensorListShape =
  num_samples :: int
  num_elements :: size_t

record IOMeta =
  name :: string
  type_m :: dali_data_type_t
  shape :: TensorListShape

record IODescr =
  meta :: IOMeta
  buffers :: "BufferDescr list"

type_synonym IDescr = IODescr
type_synonym ODescr = IODescr

record OutputInfo =
  out_shape :: TensorListShape
  out_type :: dali_data_type_t
  out_device :: device_type_t

section \<open>The thread pool and the copy primitive\<close>

text \<open>
  The closure handed to \<^verbatim>\<open>thread_pool_.AddWork\<close> is a call of \<^verbatim>\<open>MemCopy\<close> with captured
  arguments; a unit of work is that call with the priority and the flag given to
  \<^verbatim>\<open>AddWork\<close>.
\<close>

record CopyTask =
  dst_dev :: device_type_t
  dst :: ptr
  src_dev :: device_type_t
  src :: ptr
  nbytes :: size_t

record Work =
  work :: CopyTask
  priority :: size_t
  start_immediately :: bool

text \<open>The calls that leave the executor, in the order they are made.\<close>

datatype event =
    EvSetInput IODescr
  | EvRun
  | EvOutput
  | EvReset
  | EvPutOutput ptr nat device_type_t
  | EvSyncOutputStream
  | EvMemCopy CopyTask

section \<open>The pipeline: \<^verbatim>\<open>DaliPipeline\<close>\<close>

text \<open>
  The DALI library and the parts of the pipeline class that are only declared in
  \<^verbatim>\<open>dali_pipeline.h\<close> are parameters: a record of functions over the library's handle
  \<open>'h\<close>. A call that can throw returns the exception, if any, and the handle afterwards.
  \<open>handle_valid\<close> is the test \<^verbatim>\<open>handle_.pipe && handle_.ws\<close>. \<open>schedule\<close> is the order in
  which the pool's workers complete the queued work.
\<close>

record 'h dali_api =
  dali_type_size :: "dali_data_type_t \<Rightarrow> size_t"
  daliCreatePipeline :: "string \<Rightarrow> int \<Rightarrow> int \<Rightarrow> int \<Rightarrow> 'h"
  daliDeletePipeline :: "'h \<Rightarrow> 'h"
  handle_valid :: "'h \<Rightarrow> bool"
  daliOutputRelease :: "'h \<Rightarrow> exception option \<times> 'h"
  daliRun :: "'h \<Rightarrow> exception option \<times> 'h"
  daliOutput :: "'h \<Rightarrow> exception option \<times> 'h"
  daliGetNumOutput :: "'h \<Rightarrow> nat"
  daliTypeAt :: "'h \<Rightarrow> nat \<Rightarrow> dali_data_type_t"
  daliGetOutputDevice :: "'h \<Rightarrow> nat \<Rightarrow> device_type_t"
  GetOutputShapes :: "'h \<Rightarrow> TensorListShape list"
  SetInput :: "'h \<Rightarrow> IODescr \<Rightarrow> exception option \<times> 'h"
  PutOutput :: "'h \<Rightarrow> ptr \<Rightarrow> nat \<Rightarrow> device_type_t \<Rightarrow> exception option \<times> 'h"
  SyncOutputStream :: "'h \<Rightarrow> exception option \<times> 'h"
  schedule :: "Work list \<Rightarrow> Work list"

record 'h DaliPipeline =
  serialized_pipeline :: string
  max_batch_size :: int
  num_threads :: int
  pl_device_id :: int
  handle :: 'h

definition DeviceId :: "'h DaliPipeline \<Rightarrow> int" where
  "DeviceId pl = pl_device_id pl"

text \<open>\<^verbatim>\<open>Run()\<close>: \<^verbatim>\<open>daliOutputRelease\<close>, then \<^verbatim>\<open>daliRun\<close>.\<close>

definition pipeline_Run :: "'h dali_api \<Rightarrow> 'h DaliPipeline \<Rightarrow> exception option \<times> 'h DaliPipeline" where
  "pipeline_Run api pl =
     (case daliOutputRelease api (handle pl) of
        (Some ex, h1) \<Rightarrow> (Some ex, pl\<lparr>handle := h1\<rparr>)
      | (None, h1) \<Rightarrow>
          (case daliRun api h1 of (r, h2) \<Rightarrow> (r, pl\<lparr>handle := h2\<rparr>)))"

definition pipeline_Output :: "'h dali_api \<Rightarrow> 'h DaliPipeline \<Rightarrow> exception option \<times> 'h DaliPipeline" where
  "pipeline_Output api pl =
     (case daliOutput api (handle pl) of (r, h1) \<Rightarrow> (r, pl\<lparr>handle := h1\<rparr>))"

definition ReleasePipeline :: "'h dali_api \<Rightarrow> 'h DaliPipeline \<Rightarrow> 'h DaliPipeline" where
  "ReleasePipeline api pl =
     (if handle_valid api (handle pl) then pl\<lparr>handle := daliDeletePipeline api (handle pl)\<rparr> else pl)"

text \<open>\<^verbatim>\<open>CreatePipeline()\<close> ends with the assertion that the new handle is valid.\<close>

definition CreatePipeline :: "'h dali_api \<Rightarrow> 'h DaliPipeline \<Rightarrow> failure option \<times> 'h DaliPipeline" where
  "CreatePipeline api pl =
     (let pl1 = pl\<lparr>handle := daliCreatePipeline api (serialized_pipeline pl) (max_batch_size pl)
                               (num_threads pl) (pl_device_id pl)\<rparr>
      in if handle_valid api (handle pl1) then (None, pl1) else (Some AssertionFailure, pl1))"

definition Reset :: "'h dali_api \<Rightarrow> 'h DaliPipeline \<Rightarrow> failure option \<times> 'h DaliPipeline" where
  "Reset api pl = CreatePipeline api (ReleasePipeline api pl)"

definition GetNumOutput :: "'h dali_api \<Rightarrow> 'h DaliPipeline \<Rightarrow> nat" where
  "GetNumOutput api pl = daliGetNumOutput api (handle pl)"

definition GetOutputType :: "'h dali_api \<Rightarrow> 'h DaliPipeline \<Rightarrow> nat \<Rightarrow> dali_data_type_t" where
  "GetOutputType api pl i = daliTypeAt api (handle pl) i"

definition GetOutputDevice :: "'h dali_api \<Rightarrow> 'h DaliPipeline \<Rightarrow> nat \<Rightarrow> device_type_t" where
  "GetOutputDevice api pl i = daliGetOutputDevice api (handle pl) i"

section \<open>The executor: \<^verbatim>\<open>DaliExecutor\<close>\<close>

text \<open>
  The members of the executor (the pipeline, the thread pool's queue, the two pools of
  staging buffers), together with what it acts on: the memory of the caller, the current
  CUDA device, and the log of the calls it has made.
\<close>

record 'h DaliExecutor =
  pipeline :: "'h DaliPipeline"
  thread_pool :: "Work list"
  cpu_buffers :: "string \<rightharpoonup> IOBuffer"
  gpu_buffers :: "string \<rightharpoonup> IOBuffer"
  caller_mem :: "nat \<rightharpoonup> uint8_t list"
  cuda_device :: int
  trace :: "event list"

subsection \<open>Memory\<close>

definition region_bytes :: "'h DaliExecutor \<Rightarrow> region \<Rightarrow> uint8_t list option" where
  "region_bytes st r =
     (case r of
        Caller k \<Rightarrow> caller_mem st k
      | Staging CPU key \<Rightarrow> map_option (\<lambda>b. vec_elems (buffer b)) (cpu_buffers st key)
      | Staging GPU key \<Rightarrow> map_option (\<lambda>b. vec_elems (buffer b)) (gpu_buffers st key))"

definition set_elems :: "uint8_t list \<Rightarrow> IOBuffer \<Rightarrow> IOBuffer" where
  "set_elems xs b = b\<lparr>buffer := (buffer b)\<lparr>vec_elems := xs\<rparr>\<rparr>"

definition set_region_bytes :: "'h DaliExecutor \<Rightarrow> region \<Rightarrow> uint8_t list \<Rightarrow> 'h DaliExecutor" where
  "set_region_bytes st r xs =
     (case r of
        Caller k \<Rightarrow> st\<lparr>caller_mem := (caller_mem st)(k \<mapsto> xs)\<rparr>
      | Staging CPU key \<Rightarrow>
          st\<lparr>cpu_buffers := (cpu_buffers st)(key := map_option (set_elems xs) (cpu_buffers st key))\<rparr>
      | Staging GPU key \<Rightarrow>
          st\<lparr>gpu_buffers := (gpu_buffers st)(key := map_option (set_elems xs) (gpu_buffers st key))\<rparr>)"

text \<open>Reading \<open>n\<close> bytes at a pointer; \<open>None\<close> when the range leaves the allocation.\<close>

definition read_bytes :: "'h DaliExecutor \<Rightarrow> ptr \<Rightarrow> nat \<Rightarrow> uint8_t list option" where
  "read_bytes st p n =
     (case region_bytes st (ptr_region p) of
        None \<Rightarrow> None
      | Some xs \<Rightarrow>
          if ptr_offset p + n \<le> length xs then Some (take n (drop (ptr_offset p) xs)) else None)"

definition write_at :: "nat \<Rightarrow> uint8_t list \<Rightarrow> uint8_t list \<Rightarrow> uint8_t list" where
  "write_at i bs xs = take i xs @ bs @ drop (i + length bs) xs"

definition write_bytes :: "'h DaliExecutor \<Rightarrow> ptr \<Rightarrow> uint8_t list \<Rightarrow> 'h DaliExecutor option" where
  "write_bytes st p bs =
     (case region_bytes st (ptr_region p) of
        None \<Rightarrow> None
      | Some xs \<Rightarrow>
          if ptr_offset p + length bs \<le> length xs
          then Some (set_region_bytes st (ptr_region p) (write_at (ptr_offset p) bs xs))
          else None)"

text \<open>
  Modelled from the spec: \<^verbatim>\<open>MemCopy\<close> is declared in \<^verbatim>\<open>io_buffer.h\<close> and defined elsewhere.
  "Given a destination (DeviceKind, pointer), a source (DeviceKind, pointer), and a byte
  count, performs the correct copy variant": the bytes of the source range become the
  bytes of the destination range, whatever the two device kinds. A range outside its
  allocation is a fault. The stream of an accelerator copy is not modelled: the effect of
  the copy is taken at the call.
\<close>

definition MemCopy :: "'h DaliExecutor \<Rightarrow> CopyTask \<Rightarrow> failure + 'h DaliExecutor" where
  "MemCopy st t =
     (case read_bytes st (src t) (unat (nbytes t)) of
        None \<Rightarrow> Inl MemoryFault
      | Some bs \<Rightarrow>
          (case write_bytes st (dst t) bs of
             None \<Rightarrow> Inl MemoryFault
           | Some st1 \<Rightarrow> Inr st1))"

subsection \<open>The thread pool\<close>

text \<open>
  Modelled from the spec: the thread pool is DALI's \<^verbatim>\<open>ThreadPool\<close>, which is not part of the
  sources at hand. It "accepts copy tasks, each annotated with an estimated byte size and
  an immediate vs. deferred flag"; a deferred task "is queued but not run immediately".
  \<^verbatim>\<open>AddWork\<close> appends to the queue. A task submitted for an immediate start may run at any
  time until the \<^verbatim>\<open>RunAll\<close> that waits for it; here every task of the queue runs in
  \<^verbatim>\<open>RunAll\<close>, in the order \<open>schedule\<close> gives, and each run is logged.
\<close>

definition AddWork :: "Work list \<Rightarrow> CopyTask \<Rightarrow> size_t \<Rightarrow> bool \<Rightarrow> Work list" where
  "AddWork q t prio imm = q @ [\<lparr>work = t, priority = prio, start_immediately = imm\<rparr>]"

text \<open>
  Modelled from the spec: the workers running queued work, one unit after the other in
  the given order; each unit is the call of \<^verbatim>\<open>MemCopy\<close> it captured. A fault ends the run.
\<close>

fun run_works :: "'h DaliExecutor \<Rightarrow> Work list \<Rightarrow> (failure + unit) \<times> 'h DaliExecutor" where
  "run_works st [] = (Inr (), st)"
| "run_works st (w # ws) =
     (case MemCopy (st\<lparr>trace := trace st @ [EvMemCopy (work w)]\<rparr>) (work w) of
        Inl e \<Rightarrow> (Inl e, st\<lparr>trace := trace st @ [EvMemCopy (work w)]\<rparr>)
      | Inr st1 \<Rightarrow> run_works st1 ws)"

text \<open>
  Modelled from the spec: \<^verbatim>\<open>RunAll()\<close> "executes all currently queued tasks ... and blocks
  until every task completes, then clears the queue".
\<close>

definition RunAll :: "'h dali_api \<Rightarrow> 'h DaliExecutor \<Rightarrow> (failure + unit) \<times> 'h DaliExecutor" where
  "RunAll api st = run_works (st\<lparr>thread_pool := []\<rparr>) (schedule api (thread_pool st))"

subsection \<open>The pools of staging buffers\<close>

text \<open>
  \<^verbatim>\<open>cpu_buffers_[key]\<close> and \<^verbatim>\<open>gpu_buffers_[key]\<close>: the entry of the map, default-constructed
  (\<^verbatim>\<open>IOBuffer<Dev>()\<close>, of size 0) when the key is new.
\<close>

definition pool_of :: "'h DaliExecutor \<Rightarrow> device_type_t \<Rightarrow> (string \<rightharpoonup> IOBuffer)" where
  "pool_of st dev = (case dev of CPU \<Rightarrow> cpu_buffers st | GPU \<Rightarrow> gpu_buffers st)"

definition pool_entry :: "'h DaliExecutor \<Rightarrow> device_type_t \<Rightarrow> string \<Rightarrow> IOBuffer" where
  "pool_entry st dev key =
     (case pool_of st dev key of
        Some b \<Rightarrow> b
      | None \<Rightarrow> IOBuffer_new dev (Staging dev key) (cuda_device st) 0)"

definition pool_store :: "'h DaliExecutor \<Rightarrow> device_type_t \<Rightarrow> string \<Rightarrow> IOBuffer \<Rightarrow> 'h DaliExecutor" where
  "pool_store st dev key b =
     (case dev of
        CPU \<Rightarrow> st\<lparr>cpu_buffers := (cpu_buffers st)(key \<mapsto> b)\<rparr>
      | GPU \<Rightarrow> st\<lparr>gpu_buffers := (gpu_buffers st)(key \<mapsto> b)\<rparr>)"

text \<open>
  Modelled from the spec: the executor calls \<^verbatim>\<open>resize(size)\<close> and \<^verbatim>\<open>get_descr()\<close> on the
  staging buffer; \<^verbatim>\<open>io_buffer.h\<close> defines \<^verbatim>\<open>Clear\<close>, \<^verbatim>\<open>Reserve\<close>, \<^verbatim>\<open>Allocate\<close> and \<^verbatim>\<open>GetDescr\<close>.
  \<^verbatim>\<open>get_descr\<close> is taken to be \<^verbatim>\<open>GetDescr\<close>. For \<^verbatim>\<open>resize\<close> the spec has the executor "obtain/grow
  a Staging Buffer ... sized for the sum of fragment lengths", with "capacity unchanged,
  only filled resets between calls" when the size does not grow, and "the staging
  buffer's filled length after population equals that sum": the buffer is cleared, the
  size is reserved, and the size is allocated.
\<close>

definition resize :: "IOBuffer \<Rightarrow> size_t \<Rightarrow> (failure + unit) \<times> IOBuffer" where
  "resize b n =
     (case Reserve (Clear b) n of
        (Inl e, b1) \<Rightarrow> (Inl e, b1)
      | (Inr u, b1) \<Rightarrow>
          (case Allocate b1 n of
             (Inl e, b2) \<Rightarrow> (Inl e, b2)
           | (Inr p, b2) \<Rightarrow> (Inr (), b2)))"

text \<open>The loop \<^verbatim>\<open>for (auto& buf : buffers) size += buf.size;\<close> from \<^verbatim>\<open>size = 0\<close>.\<close>

definition total_size :: "BufferDescr list \<Rightarrow> size_t" where
  "total_size bufs = fold (\<lambda>buf n. n + size_d buf) bufs 0"

text \<open>
  The statements that \<^verbatim>\<open>ScheduleInputCopy\<close> and \<^verbatim>\<open>PutOutputs\<close> share: the buffer of the pool
  for the device kind under the key is resized, and its descriptor is taken.
\<close>

definition staging_buffer ::
  "'h DaliExecutor \<Rightarrow> device_type_t \<Rightarrow> string \<Rightarrow> size_t \<Rightarrow> (failure + BufferDescr) \<times> 'h DaliExecutor" where
  "staging_buffer st dev key n =
     (case resize (pool_entry st dev key) n of
        (Inl e, b1) \<Rightarrow> (Inl e, pool_store st dev key b1)
      | (Inr u, b1) \<Rightarrow> (Inr (GetDescr b1), pool_store st dev key b1))"

subsection \<open>The input path\<close>

text \<open>
  The loop of \<^verbatim>\<open>ScheduleInputCopy\<close> over the fragments: one unit of work per fragment,
  started immediately, the destination advancing by the fragment's size.
\<close>

fun add_input_copies :: "BufferDescr \<Rightarrow> ptr \<Rightarrow> BufferDescr list \<Rightarrow> Work list \<Rightarrow> Work list" where
  "add_input_copies descriptor d [] q = q"
| "add_input_copies descriptor d (buf # bufs) q =
     add_input_copies descriptor (ptr_add d (size_d buf)) bufs
       (AddWork q
          \<lparr>dst_dev = device descriptor, dst = d, src_dev = device buf, src = data buf,
           nbytes = size_d buf\<rparr>
          (size_d buf) True)"

definition ScheduleInputCopy ::
  "'h DaliExecutor \<Rightarrow> IDescr \<Rightarrow> (failure + IDescr) \<times> 'h DaliExecutor" where
  "ScheduleInputCopy st input =
     (if buffers input = [] then (Inl AssertionFailure, st)
      else
        (case staging_buffer st
                (if device (buffers input ! 0) = CPU then CPU else GPU)
                (name (meta input) @ ''_inp'')
                (total_size (buffers input)) of
           (Inl e, st1) \<Rightarrow> (Inl e, st1)
         | (Inr descriptor, st1) \<Rightarrow>
             (Inr \<lparr>meta = meta input, buffers = [descriptor]\<rparr>,
              st1\<lparr>thread_pool :=
                    add_input_copies descriptor (data descriptor) (buffers input) (thread_pool st1)\<rparr>)))"

definition RunInputCopy :: "'h dali_api \<Rightarrow> 'h DaliExecutor \<Rightarrow> (failure + unit) \<times> 'h DaliExecutor" where
  "RunInputCopy api st = RunAll api st"

definition IsNoCopy :: "'h DaliExecutor \<Rightarrow> IDescr \<Rightarrow> bool" where
  "IsNoCopy st input =
     (length (buffers input) = 1 \<and>
      (device (buffers input ! 0) = CPU \<or> device_id (buffers input ! 0) = DeviceId (pipeline st)))"

definition inp_size :: "'h dali_api \<Rightarrow> IDescr \<Rightarrow> size_t" where
  "inp_size api inp = num_elements (shape (meta inp)) * dali_type_size api (type_m (meta inp))"

text \<open>
  The body of the second loop of \<^verbatim>\<open>SetupInputs\<close>, for one input: the descriptor that is
  appended to \<^verbatim>\<open>c_inputs\<close>.
\<close>

definition prepare_input ::
  "'h dali_api \<Rightarrow> 'h DaliExecutor \<Rightarrow> IDescr \<Rightarrow> (failure + IDescr) \<times> 'h DaliExecutor" where
  "prepare_input api st inp =
     (if IsNoCopy st inp
      then (if inp_size api inp \<le> size_d (buffers inp ! 0) then (Inr inp, st)
            else (Inl AssertionFailure, st))
      else
        (case ScheduleInputCopy st inp of
           (Inl e, st1) \<Rightarrow> (Inl e, st1)
         | (Inr c, st1) \<Rightarrow>
             if inp_size api inp \<le> size_d (buffers c ! 0) then (Inr c, st1)
             else (Inl AssertionFailure, st1)))"

fun prepare_inputs ::
  "'h dali_api \<Rightarrow> 'h DaliExecutor \<Rightarrow> IDescr list \<Rightarrow> IDescr list \<Rightarrow>
   (failure + IDescr list) \<times> 'h DaliExecutor" where
  "prepare_inputs api st [] c_inputs = (Inr c_inputs, st)"
| "prepare_inputs api st (inp # inputs) c_inputs =
     (case prepare_input api st inp of
        (Inl e, st1) \<Rightarrow> (Inl e, st1)
      | (Inr c, st1) \<Rightarrow> prepare_inputs api st1 inputs (c_inputs @ [c]))"

definition pipeline_SetInput ::
  "'h dali_api \<Rightarrow> 'h DaliExecutor \<Rightarrow> IDescr \<Rightarrow> exception option \<times> 'h DaliExecutor" where
  "pipeline_SetInput api st inp =
     (case SetInput api (handle (pipeline st)) inp of
        (r, h1) \<Rightarrow>
          (r, st\<lparr>pipeline := (pipeline st)\<lparr>handle := h1\<rparr>, trace := trace st @ [EvSetInput inp]\<rparr>))"

fun set_inputs ::
  "'h dali_api \<Rightarrow> 'h DaliExecutor \<Rightarrow> IDescr list \<Rightarrow> (failure + unit) \<times> 'h DaliExecutor" where
  "set_inputs api st [] = (Inr (), st)"
| "set_inputs api st (inp # c_inputs) =
     (case pipeline_SetInput api st inp of
        (Some ex, st1) \<Rightarrow> (Inl (Thrown ex), st1)
      | (None, st1) \<Rightarrow> set_inputs api st1 c_inputs)"

text \<open>
  \<^verbatim>\<open>SetupInputs\<close>. The first loop asserts that every input after the first has the batch
  size of the first.
\<close>

definition SetupInputs ::
  "'h dali_api \<Rightarrow> 'h DaliExecutor \<Rightarrow> IDescr list \<Rightarrow> (failure + unit) \<times> 'h DaliExecutor" where
  "SetupInputs api st inputs =
     (if inputs = [] then (Inl AssertionFailure, st)
      else if \<not> list_all (\<lambda>inp. num_samples (shape (meta inp)) = num_samples (shape (meta (inputs ! 0))))
                      (tl inputs)
      then (Inl AssertionFailure, st)
      else
        (case prepare_inputs api st inputs [] of
           (Inl e, st1) \<Rightarrow> (Inl e, st1)
         | (Inr c_inputs, st1) \<Rightarrow>
             (case RunInputCopy api st1 of
                (Inl e, st2) \<Rightarrow> (Inl e, st2)
              | (Inr u, st2) \<Rightarrow> set_inputs api st2 c_inputs)))"

subsection \<open>Running the pipeline\<close>

text \<open>
  The \<^verbatim>\<open>try\<close> block of \<^verbatim>\<open>Run\<close>: \<^verbatim>\<open>pipeline_.Run()\<close>, then \<^verbatim>\<open>pipeline_.Output()\<close>, each
  logged.
\<close>

definition run_and_output ::
  "'h dali_api \<Rightarrow> 'h DaliExecutor \<Rightarrow> exception option \<times> 'h DaliExecutor" where
  "run_and_output api st =
     (case pipeline_Run api (pipeline st) of
        (Some ex, pl1) \<Rightarrow> (Some ex, st\<lparr>pipeline := pl1, trace := trace st @ [EvRun]\<rparr>)
      | (None, pl1) \<Rightarrow>
          (case pipeline_Output api pl1 of
             (r, pl2) \<Rightarrow> (r, st\<lparr>pipeline := pl2, trace := trace st @ [EvRun, EvOutput]\<rparr>)))"

text \<open>
  The rest of \<^verbatim>\<open>Run\<close> after the \<^verbatim>\<open>try\<close> block: one \<^verbatim>\<open>OutputInfo\<close> per output. Reading
  \<^verbatim>\<open>outputs_shapes\<close> beyond its end is a fault.
\<close>

definition output_infos :: "'h dali_api \<Rightarrow> 'h DaliPipeline \<Rightarrow> failure + OutputInfo list" where
  "output_infos api pl =
     (let outputs_shapes = GetOutputShapes api (handle pl) in
      if length outputs_shapes < GetNumOutput api pl then Inl MemoryFault
      else Inr (map (\<lambda>out_idx. \<lparr>out_shape = outputs_shapes ! out_idx,
                                out_type = GetOutputType api pl out_idx,
                                out_device = GetOutputDevice api pl out_idx\<rparr>)
                  [0 ..< GetNumOutput api pl]))"

text \<open>
  \<^verbatim>\<open>Run\<close>. The handler catches \<^verbatim>\<open>std::runtime_error\<close> (and the classes derived from it),
  resets the pipeline and throws the exception again; any other exception leaves
  \<^verbatim>\<open>Run\<close> as it is.
\<close>

definition Run ::
  "'h dali_api \<Rightarrow> 'h DaliExecutor \<Rightarrow> IDescr list \<Rightarrow> (failure + OutputInfo list) \<times> 'h DaliExecutor" where
  "Run api st inputs =
     (case SetupInputs api st inputs of
        (Inl e, st1) \<Rightarrow> (Inl e, st1)
      | (Inr u, st1) \<Rightarrow>
          (case run_and_output api st1 of
             (Some (RuntimeError msg), st2) \<Rightarrow>
               (case Reset api (pipeline st2) of
                  (Some f, pl3) \<Rightarrow> (Inl f, st2\<lparr>pipeline := pl3, trace := trace st2 @ [EvReset]\<rparr>)
                | (None, pl3) \<Rightarrow>
                    (Inl (Thrown (RuntimeError msg)),
                     st2\<lparr>pipeline := pl3, trace := trace st2 @ [EvReset]\<rparr>))
           | (Some (OtherException msg), st2) \<Rightarrow> (Inl (Thrown (OtherException msg)), st2)
           | (None, st2) \<Rightarrow>
               (case output_infos api (pipeline st2) of
                  Inl f \<Rightarrow> (Inl f, st2)
                | Inr ret \<Rightarrow> (Inr ret, st2))))"

subsection \<open>The output path\<close>

definition pipeline_PutOutput ::
  "'h dali_api \<Rightarrow> 'h DaliExecutor \<Rightarrow> ptr \<Rightarrow> nat \<Rightarrow> device_type_t \<Rightarrow>
   exception option \<times> 'h DaliExecutor" where
  "pipeline_PutOutput api st p output_idx dev =
     (case PutOutput api (handle (pipeline st)) p output_idx dev of
        (r, h1) \<Rightarrow>
          (r, st\<lparr>pipeline := (pipeline st)\<lparr>handle := h1\<rparr>,
                 trace := trace st @ [EvPutOutput p output_idx dev]\<rparr>))"

definition pipeline_SyncOutputStream ::
  "'h dali_api \<Rightarrow> 'h DaliExecutor \<Rightarrow> exception option \<times> 'h DaliExecutor" where
  "pipeline_SyncOutputStream api st =
     (case SyncOutputStream api (handle (pipeline st)) of
        (r, h1) \<Rightarrow>
          (r, st\<lparr>pipeline := (pipeline st)\<lparr>handle := h1\<rparr>,
                 trace := trace st @ [EvSyncOutputStream]\<rparr>))"

text \<open>
  The inner loop of \<^verbatim>\<open>PutOutputs\<close> over the fragments of a destination: one deferred unit
  of work per fragment, the source advancing by the fragment's size.
\<close>

fun add_output_copies :: "BufferDescr \<Rightarrow> ptr \<Rightarrow> BufferDescr list \<Rightarrow> Work list \<Rightarrow> Work list" where
  "add_output_copies interm_descr s [] q = q"
| "add_output_copies interm_descr s (buf # bufs) q =
     add_output_copies interm_descr (ptr_add s (size_d buf)) bufs
       (AddWork q
          \<lparr>dst_dev = device buf, dst = data buf, src_dev = device interm_descr, src = s,
           nbytes = size_d buf\<rparr>
          (size_d buf) False)"

text \<open>The body of the outer loop, for the output slot \<open>output_idx\<close>.\<close>

definition put_output ::
  "'h dali_api \<Rightarrow> 'h DaliExecutor \<Rightarrow> nat \<Rightarrow> ODescr \<Rightarrow> (failure + unit) \<times> 'h DaliExecutor" where
  "put_output api st output_idx out =
     (if length (buffers out) = 1
      then
        (case pipeline_PutOutput api st (data (buffers out ! 0)) output_idx
                (device (buffers out ! 0)) of
           (Some ex, st1) \<Rightarrow> (Inl (Thrown ex), st1)
         | (None, st1) \<Rightarrow> (Inr (), st1))
      else
        (case staging_buffer st
                (if GetOutputDevice api (pipeline st) output_idx = CPU then CPU else GPU)
                (name (meta out) @ ''_out'')
                (total_size (buffers out)) of
           (Inl e, st1) \<Rightarrow> (Inl e, st1)
         | (Inr interm_descr, st1) \<Rightarrow>
             (case pipeline_PutOutput api st1 (data interm_descr) output_idx
                     (device interm_descr) of
                (Some ex, st2) \<Rightarrow> (Inl (Thrown ex), st2)
              | (None, st2) \<Rightarrow>
                  (Inr (),
                   st2\<lparr>thread_pool :=
                         add_output_copies interm_descr (data interm_descr) (buffers out)
                           (thread_pool st2)\<rparr>))))"

fun put_output_slots ::
  "'h dali_api \<Rightarrow> 'h DaliExecutor \<Rightarrow> nat \<Rightarrow> ODescr list \<Rightarrow> (failure + unit) \<times> 'h DaliExecutor" where
  "put_output_slots api st output_idx [] = (Inr (), st)"
| "put_output_slots api st output_idx (out # outputs) =
     (case put_output api st output_idx out of
        (Inl e, st1) \<Rightarrow> (Inl e, st1)
      | (Inr u, st1) \<Rightarrow> put_output_slots api st1 (Suc output_idx) outputs)"

text \<open>
  \<^verbatim>\<open>PutOutputs\<close>. The loop index is a \<^verbatim>\<open>uint32_t\<close>: the model is the source for fewer than
  \<open>2^32\<close> outputs.
\<close>

definition PutOutputs ::
  "'h dali_api \<Rightarrow> 'h DaliExecutor \<Rightarrow> ODescr list \<Rightarrow> (failure + unit) \<times> 'h DaliExecutor" where
  "PutOutputs api st outputs =
     (case put_output_slots api st 0 outputs of
        (Inl e, st1) \<Rightarrow> (Inl e, st1)
      | (Inr u, st1) \<Rightarrow>
          (case pipeline_SyncOutputStream api st1 of
             (Some ex, st2) \<Rightarrow> (Inl (Thrown ex), st2)
           | (None, st2) \<Rightarrow> RunAll api st2))"

text \<open>
  A buffer is well formed when its size fits \<^verbatim>\<open>size_t\<close> and the claimed prefix lies inside
  the allocation.
\<close>

definition wf_buffer :: "IOBuffer \<Rightarrow> bool" where
  "wf_buffer b = (length (vec_elems (buffer b)) < 2 ^ 64 \<and> filled b \<le> vec_size (buffer b))"

text \<open>A host buffer of eight bytes, as \<^verbatim>\<open>IOBuffer<CPU>(8)\<close> builds it.\<close>

definition buf8 :: IOBuffer where
  "buf8 = IOBuffer_new CPU (Staging CPU ''x_inp'') 0 8"

text \<open>The buffer that \<^verbatim>\<open>resize\<close> leaves; \<^verbatim>\<open>resize\<close> cannot fail.\<close>

definition resized :: "IOBuffer \<Rightarrow> size_t \<Rightarrow> IOBuffer" where
  "resized b n = snd (resize b n)"

text \<open>
  The units of work that the claims expect of \<^verbatim>\<open>ScheduleInputCopy\<close>: one per fragment, in
  the order of the fragments, each writing where the fragments before it end.
\<close>

fun input_works :: "device_type_t \<Rightarrow> ptr \<Rightarrow> BufferDescr list \<Rightarrow> Work list" where
  "input_works dev d [] = []"
| "input_works dev d (buf # bufs) =
     \<lparr>work = \<lparr>dst_dev = dev, dst = d, src_dev = device buf, src = data buf, nbytes = size_d buf\<rparr>,
      priority = size_d buf, start_immediately = True\<rparr>
     # input_works dev (ptr_add d (size_d buf)) bufs"

text \<open>
  What the types of the two maps say: a buffer of the host pool is an \<^verbatim>\<open>IOBuffer<CPU>\<close>, a
  buffer of the accelerator pool an \<^verbatim>\<open>IOBuffer<GPU>\<close>, and each owns the allocation that
  carries its key, of a size that fits \<^verbatim>\<open>size_t\<close>.
\<close>

definition pools_ok :: "'h DaliExecutor \<Rightarrow> bool" where
  "pools_ok st =
     (\<forall>dev key b. pool_of st dev key = Some b \<longrightarrow>
        Dev b = dev \<and> vec_data (buffer b) = Staging dev key
        \<and> length (vec_elems (buffer b)) < 2 ^ 64)"

section \<open>A small instance\<close>

text \<open>
  A pipeline library for concrete runs. Its handle records whether the pipeline exists
  and the names of the inputs set since the last run. A run fails with a runtime error
  when an input named \<open>bad\<close> was set, and with an exception of another class when an
  input named \<open>oom\<close> was set. There is one output. The workers finish the queue in
  reverse.
\<close>

datatype demo_handle = DemoHandle bool "string list"

fun demo_valid :: "demo_handle \<Rightarrow> bool" where
  "demo_valid (DemoHandle v ns) = v"

fun demo_run :: "demo_handle \<Rightarrow> exception option \<times> demo_handle" where
  "demo_run (DemoHandle v ns) =
     (if ''bad'' \<in> set ns then (Some (RuntimeError ''bad input''), DemoHandle v ns)
      else if ''oom'' \<in> set ns then (Some (OtherException ''bad_alloc''), DemoHandle v ns)
      else (None, DemoHandle v []))"

fun demo_set_input :: "demo_handle \<Rightarrow> IODescr \<Rightarrow> exception option \<times> demo_handle" where
  "demo_set_input (DemoHandle v ns) d = (None, DemoHandle v (ns @ [name (meta d)]))"

definition demo_api :: "demo_handle dali_api" where
  "demo_api =
     \<lparr>dali_type_size = (\<lambda>t. 1),
      daliCreatePipeline = (\<lambda>s b t d. DemoHandle True []),
      daliDeletePipeline = (\<lambda>h. DemoHandle False []),
      handle_valid = demo_valid,
      daliOutputRelease = (\<lambda>h. (None, h)),
      daliRun = demo_run,
      daliOutput = (\<lambda>h. (None, h)),
      daliGetNumOutput = (\<lambda>h. 1),
      daliTypeAt = (\<lambda>h i. 0),
      daliGetOutputDevice = (\<lambda>h i. CPU),
      GetOutputShapes = (\<lambda>h. [\<lparr>num_samples = 2, num_elements = 7\<rparr>]),
      SetInput = demo_set_input,
      PutOutput = (\<lambda>h p i d. (None, h)),
      SyncOutputStream = (\<lambda>h. (None, h)),
      schedule = rev\<rparr>"

text \<open>An executor with empty pools, and three regions of caller memory.\<close>

definition demo_exec :: "demo_handle DaliExecutor" where
  "demo_exec =
     \<lparr>pipeline = \<lparr>serialized_pipeline = ''pipe'', max_batch_size = 8, num_threads = 1,
                  pl_device_id = 0, handle = DemoHandle True []\<rparr>,
      thread_pool = [],
      cpu_buffers = Map.empty,
      gpu_buffers = Map.empty,
      caller_mem = [0 \<mapsto> [1, 2, 3], 1 \<mapsto> [4, 5, 6, 7], 2 \<mapsto> [0, 0, 0, 0, 0, 0, 0, 0]],
      cuda_device = 0,
      trace = []\<rparr>"

text \<open>A fragment in caller memory, and an input of one-byte elements.\<close>

definition frag :: "nat \<Rightarrow> nat \<Rightarrow> size_t \<Rightarrow> device_type_t \<Rightarrow> int \<Rightarrow> BufferDescr" where
  "frag k i n dev did = \<lparr>data = Ptr (Caller k) i, size_d = n, device = dev, device_id = did\<rparr>"

definition demo_input :: "string \<Rightarrow> int \<Rightarrow> size_t \<Rightarrow> BufferDescr list \<Rightarrow> IODescr" where
  "demo_input nm samples elems bufs =
     \<lparr>meta = \<lparr>name = nm, type_m = 0, shape = \<lparr>num_samples = samples, num_elements = elems\<rparr>\<rparr>,
      buffers = bufs\<rparr>"


text \<open>The kinds of logged calls.\<close>

fun is_put_output :: "event \<Rightarrow> bool" where
  "is_put_output (EvPutOutput p i d) = True"
| "is_put_output e = False"

fun is_mem_copy :: "event \<Rightarrow> bool" where
  "is_mem_copy (EvMemCopy t) = True"
| "is_mem_copy e = False"


text \<open>
  The pipeline as its constructor leaves it: the handle is the one that
  \<^verbatim>\<open>daliCreatePipeline\<close> returns for the parameters of the pipeline.
\<close>

definition fresh_pipeline :: "'h dali_api \<Rightarrow> 'h DaliPipeline \<Rightarrow> 'h DaliPipeline" where
  "fresh_pipeline api pl =
     pl\<lparr>handle := daliCreatePipeline api (serialized_pipeline pl) (max_batch_size pl)
                     (num_threads pl) (pl_device_id pl)\<rparr>"

text \<open>The parameters the pipeline was constructed with.\<close>

definition pl_config :: "'h DaliPipeline \<Rightarrow> string \<times> int \<times> int \<times> int" where
  "pl_config pl = (serialized_pipeline pl, max_batch_size pl, num_threads pl, pl_device_id pl)"

text \<open>
  Inputs on which the small instance fails with a runtime error, fails with an exception
  of another class, and succeeds; and the executor after each failure.
\<close>

definition bad_inputs :: "IODescr list" where
  "bad_inputs = [demo_input ''bad'' 2 3 [frag 0 0 3 CPU 0]]"

definition oom_inputs :: "IODescr list" where
  "oom_inputs = [demo_input ''oom'' 2 3 [frag 0 0 3 CPU 0]]"

definition good_inputs :: "IODescr list" where
  "good_inputs = [demo_input ''x'' 2 7 [frag 0 0 3 CPU 0, frag 1 0 4 CPU 0],
                  demo_input ''w'' 2 3 [frag 0 0 3 CPU 0]]"

definition after_bad :: "demo_handle DaliExecutor" where
  "after_bad = demo_exec\<lparr>trace := [EvSetInput (demo_input ''bad'' 2 3 [frag 0 0 3 CPU 0]), EvRun, EvReset]\<rparr>"

definition after_oom :: "demo_handle DaliExecutor" where
  "after_oom =
     demo_exec\<lparr>pipeline := (pipeline demo_exec)\<lparr>handle := DemoHandle True [''oom'']\<rparr>,
               trace := [EvSetInput (demo_input ''oom'' 2 3 [frag 0 0 3 CPU 0]), EvRun]\<rparr>"

text \<open>
  A write that stays inside the list; one that would leave it changes nothing. (A copy
  that leaves its allocation is a fault, so the two agree on every copy that runs.)
\<close>

definition write_safe :: "nat \<Rightarrow> uint8_t list \<Rightarrow> uint8_t list \<Rightarrow> uint8_t list" where
  "write_safe i bs xs = (if i + length bs \<le> length xs then write_at i bs xs else xs)"

text \<open>The bytes a copy reads, and the bytes of a fragment, in a given state.\<close>

definition task_bytes :: "'h DaliExecutor \<Rightarrow> CopyTask \<Rightarrow> uint8_t list" where
  "task_bytes st t = (case read_bytes st (src t) (unat (nbytes t)) of Some bs \<Rightarrow> bs | None \<Rightarrow> [])"

definition frag_bytes :: "'h DaliExecutor \<Rightarrow> BufferDescr \<Rightarrow> uint8_t list" where
  "frag_bytes st f = (case read_bytes st (data f) (unat (size_d f)) of Some bs \<Rightarrow> bs | None \<Rightarrow> [])"

text \<open>What a copy does to the bytes of its destination, from the bytes it reads in \<open>st\<close>.\<close>

definition copy_write :: "'h DaliExecutor \<Rightarrow> Work \<Rightarrow> uint8_t list \<Rightarrow> uint8_t list" where
  "copy_write st w = write_safe (ptr_offset (dst (work w))) (task_bytes st (work w))"

text \<open>The staging buffer of an input: its pool, its key and its allocation.\<close>

definition inp_dev :: "IODescr \<Rightarrow> device_type_t" where
  "inp_dev input = (if device (hd (buffers input)) = CPU then CPU else GPU)"

definition inp_region :: "IODescr \<Rightarrow> region" where
  "inp_region input = Staging (inp_dev input) (name (meta input) @ ''_inp'')"


text \<open>The copies that \<^verbatim>\<open>ScheduleInputCopy\<close> enqueues for an input.\<close>

definition inp_works :: "IODescr \<Rightarrow> Work list" where
  "inp_works input = input_works (inp_dev input) (Ptr (inp_region input) 0) (buffers input)"

text \<open>The sum of the lengths of the fragments of an input, as a natural number.\<close>

definition inp_bytes :: "IODescr \<Rightarrow> nat" where
  "inp_bytes input = sum_list (map (\<lambda>f. unat (size_d f)) (buffers input))"


text \<open>
  A fragment that the executor can read: a range of an allocation of the caller.
\<close>

definition fragment_readable :: "(nat \<rightharpoonup> uint8_t list) \<Rightarrow> BufferDescr \<Rightarrow> bool" where
  "fragment_readable m f =
     (case ptr_region (data f) of
        Caller k \<Rightarrow>
          (case m k of
             Some ys \<Rightarrow> ptr_offset (data f) + unat (size_d f) \<le> length ys
           | None \<Rightarrow> False)
      | Staging d key \<Rightarrow> False)"

text \<open>
  Valid inputs of an invocation, with the caller's memory \<open>m\<close>: there is an input, all
  inputs have one batch size and different names, and every input has fragments, all
  readable, whose lengths add up without leaving \<^verbatim>\<open>size_t\<close> to at least the bytes
  that the shape and the type of the input call for.
\<close>

definition valid_input :: "'h dali_api \<Rightarrow> (nat \<rightharpoonup> uint8_t list) \<Rightarrow> IDescr \<Rightarrow> bool" where
  "valid_input api m inp =
     (buffers inp \<noteq> []
      \<and> list_all (fragment_readable m) (buffers inp)
      \<and> inp_bytes inp < 2 ^ 64
      \<and> inp_size api inp \<le> total_size (buffers inp))"

definition valid_inputs :: "'h dali_api \<Rightarrow> (nat \<rightharpoonup> uint8_t list) \<Rightarrow> IDescr list \<Rightarrow> bool" where
  "valid_inputs api m inputs =
     (inputs \<noteq> []
      \<and> list_all (\<lambda>inp. num_samples (shape (meta inp)) = num_samples (shape (meta (inputs ! 0))))
           (tl inputs)
      \<and> distinct (map (\<lambda>inp. name (meta inp)) inputs)
      \<and> list_all (valid_input api m) inputs)"

text \<open>
  A descriptor that presents an input to the pipeline: the input itself when it
  qualifies for the zero-copy path, and otherwise a descriptor with the metadata of the
  input and one fragment, the start of the input's staging buffer, of the summed size.
\<close>

definition presents :: "'h DaliExecutor \<Rightarrow> IDescr \<Rightarrow> IDescr \<Rightarrow> bool" where
  "presents st inp c =
     (if IsNoCopy st inp then c = inp
      else meta c = meta inp
         \<and> length (buffers c) = 1
         \<and> data (buffers c ! 0) = Ptr (inp_region inp) 0
         \<and> device (buffers c ! 0) = inp_dev inp
         \<and> size_d (buffers c ! 0) = total_size (buffers inp))"

text \<open>
  The library completes an invocation on a handle: it takes the descriptors one after
  the other, releases the previous outputs, runs, produces its outputs, and reports a
  shape for each of them, all without an exception.
\<close>

fun set_handle_inputs :: "'h dali_api \<Rightarrow> 'h \<Rightarrow> IDescr list \<Rightarrow> exception option \<times> 'h" where
  "set_handle_inputs api h [] = (None, h)"
| "set_handle_inputs api h (c # cs) =
     (case SetInput api h c of
        (Some ex, h1) \<Rightarrow> (Some ex, h1)
      | (None, h1) \<Rightarrow> set_handle_inputs api h1 cs)"

definition pipeline_completes :: "'h dali_api \<Rightarrow> 'h \<Rightarrow> IDescr list \<Rightarrow> bool" where
  "pipeline_completes api h cs =
     (case set_handle_inputs api h cs of
        (Some ex, h1) \<Rightarrow> False
      | (None, h1) \<Rightarrow>
          (case daliOutputRelease api h1 of
             (Some ex, h2) \<Rightarrow> False
           | (None, h2) \<Rightarrow>
               (case daliRun api h2 of
                  (Some ex, h3) \<Rightarrow> False
                | (None, h3) \<Rightarrow>
                    (case daliOutput api h3 of
                       (Some ex, h4) \<Rightarrow> False
                     | (None, h4) \<Rightarrow> daliGetNumOutput api h4 \<le> length (GetOutputShapes api h4)))))"

section \<open>Properties of the staging buffer\<close>

lemma vec_size_resize: "vec_size (vec_resize v n) = n"
  by (simp add: vec_size_def vec_resize_def min_def)

lemma vec_data_resize: "vec_data (vec_resize v n) = vec_data v"
  by (simp add: vec_resize_def)

lemma length_vec_resize: "length (vec_elems (vec_resize v n)) = unat n"
  by (simp add: vec_resize_def min_def)

lemma unat_size_t_bound: "unat (n :: size_t) < 2 ^ 64"
  using unsigned_less [of n, where ?'a = nat] by simp

lemma buf8_simps:
  "vec_size (buffer buf8) = 8" "filled buf8 = 0" "vec_data (buffer buf8) = Staging CPU ''x_inp''"
  by (simp_all add: buf8_def IOBuffer_new_def vec_size_resize vec_data_resize)

text \<open>
  \<^verbatim>\<open>Allocate(size)\<close> in the arithmetic of \<^verbatim>\<open>size_t\<close>, in which the \<^verbatim>\<open>ENFORCE\<close> computes its
  sum: the pointer at offset \<^verbatim>\<open>filled\<close> and \<^verbatim>\<open>filled\<close> advanced when the wrapped sum is
  within the capacity, the failure, with nothing changed, when it is not. The capacity is
  the same afterwards in both cases.
\<close>

lemma Allocate_size_t:
  "(filled b + n \<le> Capacity b \<longrightarrow>
      Allocate b n =
        (Inr (Ptr (vec_data (buffer b)) (unat (filled b))), b\<lparr>filled := filled b + n\<rparr>))
   \<and> (Capacity b < filled b + n \<longrightarrow> Allocate b n = (Inl EnforceFailure, b))
   \<and> (fst (Allocate b n) = Inl EnforceFailure \<longleftrightarrow> Capacity b < filled b + n)
   \<and> Capacity (snd (Allocate b n)) = Capacity b"
  by (auto simp: Allocate_def Capacity_def)

lemma Allocate_buf8:
  "Allocate buf8 5 = (Inr (Ptr (Staging CPU ''x_inp'') 0), buf8\<lparr>filled := 5\<rparr>)
   \<and> Allocate (buf8\<lparr>filled := 5\<rparr>) 4 = (Inl EnforceFailure, buf8\<lparr>filled := 5\<rparr>)"
  using Allocate_size_t [of buf8 5] Allocate_size_t [of "buf8\<lparr>filled := 5\<rparr>" 4]
  by (simp add: buf8_simps Capacity_def)

text \<open>
  Where the sum does not wrap, the comparison of the \<^verbatim>\<open>ENFORCE\<close> is the comparison of
  the natural numbers, and \<^verbatim>\<open>Allocate\<close> does what its contract says: it succeeds, with
  \<^verbatim>\<open>filled\<close> advanced by \<^verbatim>\<open>size\<close>, when \<^verbatim>\<open>filled + size <= capacity\<close>, and fails when
  \<^verbatim>\<open>filled + size > capacity\<close>.
\<close>

lemma Allocate_no_wrap:
  assumes "unat (filled b) + unat n < 2 ^ 64"
  shows "filled b + n \<le> Capacity b \<longleftrightarrow> unat (filled b) + unat n \<le> unat (Capacity b)"
proof -
  have "unat (filled b + n) = unat (filled b) + unat n"
    using assms by (simp add: unat_word_ariths)
  then show ?thesis
    by (simp add: word_le_nat_alt)
qed

lemma Allocate_within_capacity:
  assumes "unat (filled b) + unat n < 2 ^ 64"
  shows "(unat (filled b) + unat n \<le> unat (Capacity b) \<longrightarrow>
            Allocate b n =
              (Inr (Ptr (vec_data (buffer b)) (unat (filled b))), b\<lparr>filled := filled b + n\<rparr>)
          \<and> unat (filled (snd (Allocate b n))) = unat (filled b) + unat n)
       \<and> (unat (Capacity b) < unat (filled b) + unat n \<longrightarrow>
            Allocate b n = (Inl EnforceFailure, b))
       \<and> Capacity (snd (Allocate b n)) = Capacity b"
proof -
  have s: "unat (filled b + n) = unat (filled b) + unat n"
    using assms by (simp add: unat_word_ariths)
  have "filled b + n \<le> Capacity b \<longleftrightarrow> unat (filled b) + unat n \<le> unat (Capacity b)"
    using assms by (rule Allocate_no_wrap)
  then show ?thesis
    using s by (auto simp: Allocate_def Capacity_def)
qed

text \<open>
  Claim C7 says that \<^verbatim>\<open>Allocate(size)\<close> fails exactly when \<^verbatim>\<open>filled + size > capacity\<close>,
  and advances \<^verbatim>\<open>filled\<close> by \<^verbatim>\<open>size\<close> otherwise. The code misses the sizes for which the
  sum leaves \<^verbatim>\<open>size_t\<close>. A buffer of capacity 8 hands out a chunk of 5 bytes, so that
  \<^verbatim>\<open>filled\<close> is 5. Asked then for \<^verbatim>\<open>2^64 - 1\<close> bytes, where \<^verbatim>\<open>filled + size\<close> is
  \<^verbatim>\<open>2^64 + 4\<close> and far beyond the capacity, \<^verbatim>\<open>Allocate\<close> passes its \<^verbatim>\<open>ENFORCE\<close>, returns
  the pointer at offset 5, and moves \<^verbatim>\<open>filled\<close> back to 4.
\<close>

theorem Allocate_wraps_past_capacity:
  "Allocate buf8 5 = (Inr (Ptr (Staging CPU ''x_inp'') 0), buf8\<lparr>filled := 5\<rparr>)
   \<and> unat (Capacity (buf8\<lparr>filled := 5\<rparr>)) = 8
   \<and> unat (filled (buf8\<lparr>filled := 5\<rparr>)) + unat (18446744073709551615 :: size_t)
       = 18446744073709551620
   \<and> Allocate (buf8\<lparr>filled := 5\<rparr>) 18446744073709551615
       = (Inr (Ptr (Staging CPU ''x_inp'') 5), buf8\<lparr>filled := 4\<rparr>)"
  by (simp add: Allocate_def Capacity_def buf8_simps)

lemma Allocate_wf:
  assumes "wf_buffer b" and "Allocate b n = (Inr p, b')"
  shows "wf_buffer b'"
  using assms by (auto simp: Allocate_def wf_buffer_def split: if_splits)

lemma Clear_wf: "wf_buffer b \<Longrightarrow> wf_buffer (Clear b)"
  by (simp add: wf_buffer_def Clear_def)

lemma Reserve_wf:
  assumes "wf_buffer b" and "Reserve b n = (Inr u, b')"
  shows "wf_buffer b'"
  using assms
  using unat_size_t_bound [of n]
  by (auto simp: Reserve_def wf_buffer_def length_vec_resize vec_size_resize split: if_splits)

lemma IOBuffer_new_wf: "wf_buffer (IOBuffer_new dev r cur n)"
  using unat_size_t_bound [of n]
  by (simp add: IOBuffer_new_def wf_buffer_def length_vec_resize)

text \<open>
  Claim C8. \<^verbatim>\<open>Reserve(size)\<close> changes nothing when \<^verbatim>\<open>size <= capacity\<close>. When
  \<^verbatim>\<open>size > capacity\<close> it grows the capacity to at least \<^verbatim>\<open>size\<close> if \<^verbatim>\<open>filled == 0\<close>, and
  fails with the \<^verbatim>\<open>ENFORCE\<close> (changing nothing) if \<^verbatim>\<open>filled > 0\<close>. So the capacity never
  decreases, and \<^verbatim>\<open>Reserve\<close> after \<^verbatim>\<open>Clear()\<close> always succeeds.
\<close>

theorem Reserve_grows_only_when_empty:
  "(n \<le> Capacity b \<longrightarrow> Reserve b n = (Inr (), b))
   \<and> (Capacity b < n \<and> filled b = 0 \<longrightarrow>
        fst (Reserve b n) = Inr () \<and> n \<le> Capacity (snd (Reserve b n))
        \<and> filled (snd (Reserve b n)) = 0)
   \<and> (Capacity b < n \<and> 0 < filled b \<longrightarrow> Reserve b n = (Inl EnforceFailure, b))
   \<and> Capacity b \<le> Capacity (snd (Reserve b n))
   \<and> fst (Reserve (Clear b) n) = Inr ()"
  by (auto simp: Reserve_def Capacity_def Clear_def vec_size_resize not_le word_gt_0)

theorem Reserve_grows_only_when_empty_witness:
  "Reserve buf8 8 = (Inr (), buf8)
   \<and> fst (Reserve buf8 9) = Inr () \<and> 9 \<le> Capacity (snd (Reserve buf8 9))
   \<and> Reserve (buf8\<lparr>filled := 5\<rparr>) 9 = (Inl EnforceFailure, buf8\<lparr>filled := 5\<rparr>)
   \<and> fst (Reserve (Clear (buf8\<lparr>filled := 5\<rparr>)) 9) = Inr ()"
  using Reserve_grows_only_when_empty [of 8 buf8]
    Reserve_grows_only_when_empty [of 9 buf8]
    Reserve_grows_only_when_empty [of 9 "buf8\<lparr>filled := 5\<rparr>"]
  by (simp add: buf8_simps Capacity_def Clear_def vec_size_resize)

lemma resize_eq:
  "resize b n =
     (Inr (), (if vec_size (buffer b) < n
               then b\<lparr>buffer := vec_resize (buffer b) n, filled := n\<rparr>
               else b\<lparr>filled := n\<rparr>))"
  by (simp add: resize_def Reserve_def Clear_def Allocate_def vec_size_resize not_less)

lemma resize_resized: "resize b n = (Inr (), resized b n)"
  by (simp add: resized_def resize_eq)

lemma resized_simps:
  "filled (resized b n) = n"
  "Dev (resized b n) = Dev b"
  "buf_device_id (resized b n) = buf_device_id b"
  "vec_data (buffer (resized b n)) = vec_data (buffer b)"
  "n \<le> vec_size (buffer (resized b n))"
  by (simp_all add: resized_def resize_eq vec_data_resize vec_size_resize not_less)

lemma staging_buffer_eq:
  "staging_buffer st dev key n =
     (Inr (GetDescr (resized (pool_entry st dev key) n)),
      pool_store st dev key (resized (pool_entry st dev key) n))"
  by (simp add: staging_buffer_def resize_resized)

lemma add_input_copies_eq:
  "add_input_copies descriptor d bufs q = q @ input_works (device descriptor) d bufs"
  by (induction bufs arbitrary: d q) (simp_all add: AddWork_def)

lemma total_size_sum: "total_size bufs = sum_list (map size_d bufs)"
proof -
  have "fold (\<lambda>buf n. n + size_d buf) bufs a = a + sum_list (map size_d bufs)" for a
    by (induction bufs arbitrary: a) (simp_all add: add.assoc)
  then show ?thesis by (simp add: total_size_def)
qed

lemma ScheduleInputCopy_eq:
  assumes "buffers input \<noteq> []"
  shows "ScheduleInputCopy st input =
     (let dev = (if device (buffers input ! 0) = CPU then CPU else GPU);
          key = name (meta input) @ ''_inp'';
          b = resized (pool_entry st dev key) (total_size (buffers input));
          st1 = pool_store st dev key b
      in (Inr \<lparr>meta = meta input, buffers = [GetDescr b]\<rparr>,
          st1\<lparr>thread_pool := thread_pool st1 @
                 input_works (Dev b) (Ptr (vec_data (buffer b)) 0) (buffers input)\<rparr>))"
  using assms
  by (simp add: ScheduleInputCopy_def staging_buffer_eq add_input_copies_eq Let_def GetDescr_def)

lemma pool_entry_ok:
  assumes "pools_ok st"
  shows "Dev (pool_entry st dev key) = dev"
    and "vec_data (buffer (pool_entry st dev key)) = Staging dev key"
    and "length (vec_elems (buffer (pool_entry st dev key))) < 2 ^ 64"
  using assms
  by (auto simp: pools_ok_def pool_entry_def IOBuffer_new_def vec_data_resize length_vec_resize
      split: option.splits)

lemma pool_store_simps:
  "thread_pool (pool_store st dev key b) = thread_pool st"
  "trace (pool_store st dev key b) = trace st"
  "pipeline (pool_store st dev key b) = pipeline st"
  "caller_mem (pool_store st dev key b) = caller_mem st"
  "cuda_device (pool_store st dev key b) = cuda_device st"
  by (simp_all add: pool_store_def split: device_type_t.splits)

lemma pool_of_store:
  "pool_of (pool_store st dev key b) dev' =
     (if dev' = dev then (pool_of st dev)(key \<mapsto> b) else pool_of st dev')"
  by (cases dev; cases dev') (simp_all add: pool_of_def pool_store_def)

lemma pool_entry_store_same: "pool_entry (pool_store st dev key b) dev key = b"
  by (simp add: pool_entry_def pool_of_store)

lemma pool_of_thread_pool_upd [simp]: "pool_of (st\<lparr>thread_pool := q\<rparr>) dev = pool_of st dev"
  by (simp add: pool_of_def split: device_type_t.splits)

lemma pool_entry_thread_pool_upd [simp]:
  "pool_entry (st\<lparr>thread_pool := q\<rparr>) dev key = pool_entry st dev key"
  by (simp add: pool_entry_def split: option.splits)

lemma input_works_length: "length (input_works dev d bufs) = length bufs"
  by (induction bufs arbitrary: d) simp_all

lemma input_works_dst:
  "w \<in> set (input_works dev d bufs) \<Longrightarrow>
     dst_dev (work w) = dev \<and> ptr_region (dst (work w)) = ptr_region d \<and> start_immediately w"
proof (induction bufs arbitrary: d)
  case Nil
  then show ?case by simp
next
  case (Cons buf bufs)
  then show ?case by (cases d) auto
qed

lemma input_works_src:
  "w \<in> set (input_works dev d bufs) \<Longrightarrow>
     \<exists>f \<in> set bufs. src_dev (work w) = device f \<and> src (work w) = data f \<and> nbytes (work w) = size_d f"
  by (induction bufs arbitrary: d) auto

text \<open>
  Claim C9. On the staging path the kind of the staging buffer follows the device of the
  first fragment alone: a host buffer (of the host pool) when the first fragment is on
  the CPU, an accelerator buffer otherwise. Every copy scheduled for the input writes
  into that buffer, and the other pool is not touched. In particular an input whose
  fragments are all on the host is put together in host memory, by host-to-host copies.
\<close>

theorem staging_device_follows_first_fragment:
  assumes "pools_ok st" and "buffers input \<noteq> []"
  shows "\<exists>d st1 ws.
           ScheduleInputCopy st input = (Inr \<lparr>meta = meta input, buffers = [d]\<rparr>, st1)
         \<and> device d = (if device (hd (buffers input)) = CPU then CPU else GPU)
         \<and> data d = Ptr (Staging (device d) (name (meta input) @ ''_inp'')) 0
         \<and> thread_pool st1 = thread_pool st @ ws
         \<and> (\<forall>w \<in> set ws. dst_dev (work w) = device d
                \<and> ptr_region (dst (work w)) = Staging (device d) (name (meta input) @ ''_inp''))
         \<and> (device (hd (buffers input)) = CPU \<longrightarrow> gpu_buffers st1 = gpu_buffers st)
         \<and> (device (hd (buffers input)) \<noteq> CPU \<longrightarrow> cpu_buffers st1 = cpu_buffers st)
         \<and> ((\<forall>f \<in> set (buffers input). device f = CPU) \<longrightarrow>
               (\<forall>w \<in> set ws. dst_dev (work w) = CPU \<and> src_dev (work w) = CPU
                   \<and> ptr_region (dst (work w)) = Staging CPU (name (meta input) @ ''_inp'')))"
proof -
  define dev where "dev = (if device (buffers input ! 0) = CPU then CPU else GPU)"
  define key where "key = name (meta input) @ ''_inp''"
  define b where "b = resized (pool_entry st dev key) (total_size (buffers input))"
  define st0 where "st0 = pool_store st dev key b"
  define ws where "ws = input_works (Dev b) (Ptr (vec_data (buffer b)) 0) (buffers input)"
  have hd0: "buffers input ! 0 = hd (buffers input)"
    using assms(2) by (simp add: hd_conv_nth)
  have Devb: "Dev b = dev" and datab: "vec_data (buffer b) = Staging dev key"
    using pool_entry_ok [OF assms(1), of dev key] by (simp_all add: b_def resized_simps)
  have eq: "ScheduleInputCopy st input =
      (Inr \<lparr>meta = meta input, buffers = [GetDescr b]\<rparr>, st0\<lparr>thread_pool := thread_pool st0 @ ws\<rparr>)"
    using ScheduleInputCopy_eq [OF assms(2), of st]
    by (simp add: Let_def dev_def key_def b_def st0_def ws_def)
  have d1: "device (GetDescr b) = dev" and d2: "data (GetDescr b) = Ptr (Staging dev key) 0"
    by (simp_all add: GetDescr_def Devb datab)
  have wsP: "\<forall>w \<in> set ws. dst_dev (work w) = dev \<and> ptr_region (dst (work w)) = Staging dev key"
    using input_works_dst [of _ "Dev b" "Ptr (vec_data (buffer b)) 0" "buffers input"]
    by (auto simp: ws_def Devb datab)
  have wsS: "\<forall>w \<in> set ws. \<exists>f \<in> set (buffers input). src_dev (work w) = device f"
    using input_works_src [of _ "Dev b" "Ptr (vec_data (buffer b)) 0" "buffers input"]
    by (auto simp: ws_def)
  have g: "device (hd (buffers input)) = CPU \<longrightarrow>
             gpu_buffers (st0\<lparr>thread_pool := thread_pool st0 @ ws\<rparr>) = gpu_buffers st"
    by (simp add: st0_def dev_def hd0 pool_store_def)
  have c: "device (hd (buffers input)) \<noteq> CPU \<longrightarrow>
             cpu_buffers (st0\<lparr>thread_pool := thread_pool st0 @ ws\<rparr>) = cpu_buffers st"
    by (simp add: st0_def dev_def hd0 pool_store_def)
  have allcpu: "(\<forall>f \<in> set (buffers input). device f = CPU) \<longrightarrow>
               (\<forall>w \<in> set ws. dst_dev (work w) = CPU \<and> src_dev (work w) = CPU
                   \<and> ptr_region (dst (work w)) = Staging CPU key)"
  proof
    assume a: "\<forall>f \<in> set (buffers input). device f = CPU"
    then have "dev = CPU" using assms(2) by (simp add: dev_def hd0)
    with wsP wsS a show "\<forall>w \<in> set ws. dst_dev (work w) = CPU \<and> src_dev (work w) = CPU
                   \<and> ptr_region (dst (work w)) = Staging CPU key"
      by fastforce
  qed
  show ?thesis
    apply (rule exI [of _ "GetDescr b"])
    apply (rule exI [of _ "st0\<lparr>thread_pool := thread_pool st0 @ ws\<rparr>"])
    apply (rule exI [of _ ws])
    using eq d1 d2 wsP g c allcpu
    by (simp add: dev_def hd0 key_def st0_def pool_store_simps)
qed

lemma pools_ok_demo: "pools_ok demo_exec"
  by (simp add: pools_ok_def demo_exec_def pool_of_def split: device_type_t.splits)

theorem staging_device_follows_first_fragment_witness:
  "pools_ok demo_exec
   \<and> buffers (demo_input ''x'' 2 7 [frag 0 0 3 CPU 0, frag 1 0 4 CPU 0]) \<noteq> []
   \<and> (\<exists>st1. ScheduleInputCopy demo_exec (demo_input ''x'' 2 7 [frag 0 0 3 CPU 0, frag 1 0 4 CPU 0])
         = (Inr \<lparr>meta = meta (demo_input ''x'' 2 7 [frag 0 0 3 CPU 0, frag 1 0 4 CPU 0]),
                 buffers = [\<lparr>data = Ptr (Staging CPU ''x_inp'') 0, size_d = 7, device = CPU,
                             device_id = 0\<rparr>]\<rparr>, st1)
         \<and> gpu_buffers st1 = gpu_buffers demo_exec)"
proof -
  let ?inp = "demo_input ''x'' 2 7 [frag 0 0 3 CPU 0, frag 1 0 4 CPU 0]"
  have ne: "buffers ?inp \<noteq> []" by (simp add: demo_input_def)
  obtain d st1 and ws :: "Work list" where
    eq: "ScheduleInputCopy demo_exec ?inp = (Inr \<lparr>meta = meta ?inp, buffers = [d]\<rparr>, st1)"
    and dev: "device d = (if device (hd (buffers ?inp)) = CPU then CPU else GPU)"
    and g: "device (hd (buffers ?inp)) = CPU \<longrightarrow> gpu_buffers st1 = gpu_buffers demo_exec"
    using staging_device_follows_first_fragment [OF pools_ok_demo ne] by blast
  have "fst (ScheduleInputCopy demo_exec ?inp) =
      Inr \<lparr>meta = meta ?inp,
           buffers = [\<lparr>data = Ptr (Staging CPU ''x_inp'') 0, size_d = 7, device = CPU,
                       device_id = 0\<rparr>]\<rparr>"
    by (simp add: ScheduleInputCopy_eq ne Let_def demo_input_def frag_def GetDescr_def
        resized_simps pool_entry_def pool_of_def demo_exec_def IOBuffer_new_def
        vec_data_resize total_size_def)
  with eq g ne pools_ok_demo show ?thesis
    by (simp add: demo_input_def frag_def)
qed

text \<open>
  Claim C10. \<^verbatim>\<open>SetupInputs\<close> asserts that the inputs are not empty before it reads the
  batch size of the first: \<^verbatim>\<open>Run\<close> with no input descriptor is a contract violation that
  leaves the executor as it was, not a run that returns an empty list of output
  metadata.
\<close>

theorem Run_rejects_empty_inputs:
  "SetupInputs api st [] = (Inl AssertionFailure, st) \<and> Run api st [] = (Inl AssertionFailure, st)"
  by (simp add: SetupInputs_def Run_def)

lemma batch_check_all_equal:
  assumes "inputs \<noteq> []"
    and "list_all (\<lambda>inp. num_samples (shape (meta inp)) = num_samples (shape (meta (inputs ! 0))))
           (tl inputs)"
    and "k < length inputs"
  shows "num_samples (shape (meta (inputs ! k))) = num_samples (shape (meta (inputs ! 0)))"
proof (cases inputs)
  case Nil
  with assms(1) show ?thesis by simp
next
  case (Cons a rest)
  show ?thesis
  proof (cases k)
    case 0
    then show ?thesis by simp
  next
    case (Suc m)
    with assms(3) Cons have "rest ! m \<in> set rest" by simp
    with assms(2) Cons Suc show ?thesis by (simp add: list_all_iff)
  qed
qed

text \<open>
  Claim C4. When two inputs of an invocation differ in their batch size, \<^verbatim>\<open>Run\<close> ends with
  the failed assertion and the executor is as it was before the call: nothing has been
  added to the thread pool, no buffer has been touched, and the log of calls to the
  pipeline and of copies is unchanged.
\<close>

theorem Run_rejects_batch_size_mismatch:
  assumes "i < length inputs" and "j < length inputs"
    and "num_samples (shape (meta (inputs ! i))) \<noteq> num_samples (shape (meta (inputs ! j)))"
  shows "SetupInputs api st inputs = (Inl AssertionFailure, st)
         \<and> Run api st inputs = (Inl AssertionFailure, st)"
proof -
  have ne: "inputs \<noteq> []" using assms(1) by auto
  have "\<not> list_all (\<lambda>inp. num_samples (shape (meta inp)) = num_samples (shape (meta (inputs ! 0))))
           (tl inputs)"
    using batch_check_all_equal [OF ne _ assms(1)] batch_check_all_equal [OF ne _ assms(2)] assms(3)
    by auto
  then have "SetupInputs api st inputs = (Inl AssertionFailure, st)"
    by (simp add: SetupInputs_def)
  then show ?thesis by (simp add: Run_def)
qed

theorem Run_rejects_batch_size_mismatch_witness:
  "Run demo_api demo_exec
     [demo_input ''a'' 4 3 [frag 0 0 3 CPU 0], demo_input ''b'' 5 4 [frag 1 0 4 CPU 0]]
   = (Inl AssertionFailure, demo_exec)"
  using Run_rejects_batch_size_mismatch [of 0
      "[demo_input ''a'' 4 3 [frag 0 0 3 CPU 0], demo_input ''b'' 5 4 [frag 1 0 4 CPU 0]]"
      1 demo_api demo_exec]
  by (simp add: demo_input_def)

lemma ScheduleInputCopy_pool_grows:
  assumes "buffers inp \<noteq> []" and "ScheduleInputCopy st inp = (r, st1)"
  shows "length (thread_pool st1) = length (thread_pool st) + length (buffers inp)"
  using assms
  by (auto simp: ScheduleInputCopy_eq Let_def pool_store_simps input_works_length)

lemma ScheduleInputCopy_empty: "buffers inp = [] \<Longrightarrow> ScheduleInputCopy st inp = (Inl AssertionFailure, st)"
  by (simp add: ScheduleInputCopy_def)

text \<open>
  Claim C1. For an input descriptor \<^verbatim>\<open>SetupInputs\<close> hands on the descriptor itself, with
  the executor unchanged (no staging buffer, no unit of work), exactly when the
  descriptor has one fragment and that fragment is on the CPU or has the device index of
  the pipeline (and the size assertion holds; when it does not, the call ends there,
  still without staging or copy). Every other descriptor goes through
  \<^verbatim>\<open>ScheduleInputCopy\<close>, which adds one unit of work per fragment.
\<close>

theorem zero_copy_iff_single_resident_fragment:
  "(prepare_input api st inp = (Inr inp, st) \<longleftrightarrow>
      length (buffers inp) = 1
      \<and> (device (hd (buffers inp)) = CPU \<or> device_id (hd (buffers inp)) = pl_device_id (pipeline st))
      \<and> inp_size api inp \<le> size_d (hd (buffers inp)))
   \<and> (length (buffers inp) = 1
        \<and> (device (hd (buffers inp)) = CPU \<or> device_id (hd (buffers inp)) = pl_device_id (pipeline st))
        \<and> \<not> inp_size api inp \<le> size_d (hd (buffers inp))
       \<longrightarrow> prepare_input api st inp = (Inl AssertionFailure, st))
   \<and> (\<not> (length (buffers inp) = 1
          \<and> (device (hd (buffers inp)) = CPU \<or> device_id (hd (buffers inp)) = pl_device_id (pipeline st)))
       \<longrightarrow> prepare_input api st inp =
             (case ScheduleInputCopy st inp of
                (Inl e, st1) \<Rightarrow> (Inl e, st1)
              | (Inr c, st1) \<Rightarrow>
                  if inp_size api inp \<le> size_d (buffers c ! 0) then (Inr c, st1)
                  else (Inl AssertionFailure, st1))
           \<and> (buffers inp \<noteq> [] \<longrightarrow>
                length (thread_pool (snd (prepare_input api st inp)))
                  = length (thread_pool st) + length (buffers inp)))"
proof -
  let ?el = "length (buffers inp) = 1
      \<and> (device (hd (buffers inp)) = CPU \<or> device_id (hd (buffers inp)) = pl_device_id (pipeline st))"
  have nocopy: "IsNoCopy st inp \<longleftrightarrow> ?el"
    by (cases "buffers inp") (auto simp: IsNoCopy_def DeviceId_def)
  have hd0: "length (buffers inp) = 1 \<Longrightarrow> buffers inp ! 0 = hd (buffers inp)"
    by (cases "buffers inp") auto
  have staged: "\<not> ?el \<Longrightarrow> prepare_input api st inp \<noteq> (Inr inp, st)"
  proof
    assume n: "\<not> ?el" and eq: "prepare_input api st inp = (Inr inp, st)"
    show False
    proof (cases "buffers inp = []")
      case True
      with n eq nocopy show False
        by (simp add: prepare_input_def ScheduleInputCopy_empty)
    next
      case False
      obtain r st1 where s: "ScheduleInputCopy st inp = (r, st1)" by (cases "ScheduleInputCopy st inp")
      from ScheduleInputCopy_pool_grows [OF False s] False
      have "length (thread_pool st1) \<noteq> length (thread_pool st)" by simp
      then have "st1 \<noteq> st" by auto
      with n eq nocopy s show False
        by (auto simp: prepare_input_def split: sum.splits if_splits)
    qed
  qed
  have grows: "\<not> ?el \<Longrightarrow> buffers inp \<noteq> [] \<Longrightarrow>
      length (thread_pool (snd (prepare_input api st inp)))
        = length (thread_pool st) + length (buffers inp)"
  proof -
    assume n: "\<not> ?el" and ne: "buffers inp \<noteq> []"
    obtain r st1 where s: "ScheduleInputCopy st inp = (r, st1)" by (cases "ScheduleInputCopy st inp")
    from n nocopy s have "snd (prepare_input api st inp) = st1"
      by (auto simp: prepare_input_def split: sum.splits)
    with ScheduleInputCopy_pool_grows [OF ne s] show ?thesis by simp
  qed
  show ?thesis
    using nocopy staged grows hd0
    by (auto simp: prepare_input_def)
qed

lemma demo_exec_simps:
  "pl_device_id (pipeline demo_exec) = 0"
  "thread_pool demo_exec = []"
  "trace demo_exec = []"
  "cuda_device demo_exec = 0"
  "handle (pipeline demo_exec) = DemoHandle True []"
  by (simp_all add: demo_exec_def)

lemma demo_input_simps:
  "buffers (demo_input nm k n bufs) = bufs"
  "name (meta (demo_input nm k n bufs)) = nm"
  "num_samples (shape (meta (demo_input nm k n bufs))) = k"
  "inp_size demo_api (demo_input nm k n bufs) = n"
  by (simp_all add: demo_input_def inp_size_def demo_api_def)

lemma frag_simps:
  "data (frag k i n dev did) = Ptr (Caller k) i"
  "size_d (frag k i n dev did) = n"
  "device (frag k i n dev did) = dev"
  "device_id (frag k i n dev did) = did"
  by (simp_all add: frag_def)

theorem zero_copy_iff_single_resident_fragment_witness:
  "prepare_input demo_api demo_exec (demo_input ''a'' 2 3 [frag 0 0 3 CPU 0])
     = (Inr (demo_input ''a'' 2 3 [frag 0 0 3 CPU 0]), demo_exec)
   \<and> prepare_input demo_api demo_exec (demo_input ''a'' 2 4 [frag 0 0 3 GPU 0])
     = (Inl AssertionFailure, demo_exec)
   \<and> length (thread_pool (snd (prepare_input demo_api demo_exec
        (demo_input ''x'' 2 7 [frag 0 0 3 CPU 0, frag 1 0 4 CPU 0])))) = 2
   \<and> length (thread_pool (snd (prepare_input demo_api demo_exec
        (demo_input ''x'' 2 3 [frag 0 0 3 GPU 1])))) = 1"
proof -
  have a: "prepare_input demo_api demo_exec (demo_input ''a'' 2 3 [frag 0 0 3 CPU 0])
     = (Inr (demo_input ''a'' 2 3 [frag 0 0 3 CPU 0]), demo_exec)"
    using zero_copy_iff_single_resident_fragment [of demo_api demo_exec
          "demo_input ''a'' 2 3 [frag 0 0 3 CPU 0]"]
    by (simp add: demo_input_simps frag_simps)
  have b: "prepare_input demo_api demo_exec (demo_input ''a'' 2 4 [frag 0 0 3 GPU 0])
     = (Inl AssertionFailure, demo_exec)"
    using zero_copy_iff_single_resident_fragment [of demo_api demo_exec
          "demo_input ''a'' 2 4 [frag 0 0 3 GPU 0]"]
    by (simp add: demo_input_simps frag_simps demo_exec_simps)
  have c: "length (thread_pool (snd (prepare_input demo_api demo_exec
        (demo_input ''x'' 2 7 [frag 0 0 3 CPU 0, frag 1 0 4 CPU 0])))) = 2"
  proof -
    let ?inp = "demo_input ''x'' 2 7 [frag 0 0 3 CPU 0, frag 1 0 4 CPU 0]"
    have h1: "\<not> (length (buffers ?inp) = 1
          \<and> (device (hd (buffers ?inp)) = CPU
              \<or> device_id (hd (buffers ?inp)) = pl_device_id (pipeline demo_exec)))"
      by (simp add: demo_input_simps)
    have h2: "buffers ?inp \<noteq> []" by (simp add: demo_input_simps)
    from zero_copy_iff_single_resident_fragment [of demo_api demo_exec ?inp] h1 h2
    have "length (thread_pool (snd (prepare_input demo_api demo_exec ?inp)))
            = length (thread_pool demo_exec) + length (buffers ?inp)"
      by blast
    then show ?thesis by (simp add: demo_input_simps demo_exec_simps)
  qed
  have d: "length (thread_pool (snd (prepare_input demo_api demo_exec
        (demo_input ''x'' 2 3 [frag 0 0 3 GPU 1])))) = 1"
  proof -
    let ?inp = "demo_input ''x'' 2 3 [frag 0 0 3 GPU 1]"
    have h1: "\<not> (length (buffers ?inp) = 1
          \<and> (device (hd (buffers ?inp)) = CPU
              \<or> device_id (hd (buffers ?inp)) = pl_device_id (pipeline demo_exec)))"
      by (simp add: demo_input_simps frag_simps demo_exec_simps)
    have h2: "buffers ?inp \<noteq> []" by (simp add: demo_input_simps)
    from zero_copy_iff_single_resident_fragment [of demo_api demo_exec ?inp] h1 h2
    have "length (thread_pool (snd (prepare_input demo_api demo_exec ?inp)))
            = length (thread_pool demo_exec) + length (buffers ?inp)"
      by blast
    then show ?thesis by (simp add: demo_input_simps demo_exec_simps)
  qed
  from a b c d show ?thesis by simp
qed

lemma set_elems_simps:
  "filled (set_elems xs b) = filled b"
  "Dev (set_elems xs b) = Dev b"
  "buf_device_id (set_elems xs b) = buf_device_id b"
  "vec_data (buffer (set_elems xs b)) = vec_data (buffer b)"
  "vec_elems (buffer (set_elems xs b)) = xs"
  by (simp_all add: set_elems_def)

lemma set_region_bytes_fields:
  "thread_pool (set_region_bytes st r xs) = thread_pool st"
  "trace (set_region_bytes st r xs) = trace st"
  "pipeline (set_region_bytes st r xs) = pipeline st"
  "cuda_device (set_region_bytes st r xs) = cuda_device st"
  by (simp_all add: set_region_bytes_def split: region.splits device_type_t.splits)

lemma pool_of_set_region_bytes:
  "pool_of (set_region_bytes st r xs) dev key =
     (if r = Staging dev key then map_option (set_elems xs) (pool_of st dev key)
      else pool_of st dev key)"
  by (cases dev) (auto simp: set_region_bytes_def pool_of_def split: region.splits device_type_t.splits)

lemma filled_pool_entry_set_region_bytes:
  "filled (pool_entry (set_region_bytes st r xs) dev key) = filled (pool_entry st dev key)"
  by (simp add: pool_entry_def pool_of_set_region_bytes set_region_bytes_fields set_elems_simps
      split: option.splits)

lemma MemCopy_fields:
  assumes "MemCopy st t = Inr st1"
  shows "thread_pool st1 = thread_pool st" and "trace st1 = trace st"
    and "pipeline st1 = pipeline st" and "cuda_device st1 = cuda_device st"
    and "filled (pool_entry st1 dev key) = filled (pool_entry st dev key)"
  using assms
  by (auto simp: MemCopy_def write_bytes_def set_region_bytes_fields
      filled_pool_entry_set_region_bytes split: option.splits if_splits)

lemma pool_entry_trace_upd [simp]: "pool_entry (st\<lparr>trace := q\<rparr>) dev key = pool_entry st dev key"
  by (simp add: pool_entry_def pool_of_def split: option.splits device_type_t.splits)

lemma run_works_filled:
  assumes "run_works st ws = (r, st1)"
  shows "filled (pool_entry st1 dev key) = filled (pool_entry st dev key)"
  using assms
proof (induction ws arbitrary: st)
  case Nil
  then show ?case by simp
next
  case (Cons w ws)
  show ?case
  proof (cases "MemCopy (st\<lparr>trace := trace st @ [EvMemCopy (work w)]\<rparr>) (work w)")
    case (Inl e)
    with Cons.prems show ?thesis by auto
  next
    case (Inr st2)
    with Cons.prems have "run_works st2 ws = (r, st1)" by simp
    from Cons.IH [OF this] MemCopy_fields(5) [OF Inr, of dev key] show ?thesis by simp
  qed
qed

lemma RunAll_filled:
  assumes "RunAll api st = (r, st1)"
  shows "filled (pool_entry st1 dev key) = filled (pool_entry st dev key)"
  using run_works_filled [OF assms [unfolded RunAll_def], of dev key] by simp

lemma input_works_sums:
  "sum_list (map (\<lambda>w. nbytes (work w)) (input_works dev d bufs)) = sum_list (map size_d bufs)"
  "sum_list (map (\<lambda>w. unat (nbytes (work w))) (input_works dev d bufs))
     = sum_list (map (\<lambda>f. unat (size_d f)) bufs)"
  "sum_list (map priority (input_works dev d bufs)) = sum_list (map size_d bufs)"
  by (induction bufs arbitrary: d) simp_all

lemma unat_sum_sizes:
  "sum_list (map (\<lambda>f. unat (size_d f)) bufs) < 2 ^ 64 \<Longrightarrow>
     unat (sum_list (map size_d bufs)) = sum_list (map (\<lambda>f. unat (size_d f)) bufs)"
proof (induction bufs)
  case Nil
  then show ?case by simp
next
  case (Cons f bufs)
  then have "unat (sum_list (map size_d bufs)) = sum_list (map (\<lambda>f. unat (size_d f)) bufs)"
    by simp
  moreover from Cons.prems
  have "unat (size_d f) + sum_list (map (\<lambda>f. unat (size_d f)) bufs) < 2 ^ LENGTH(64)" by simp
  ultimately show ?case
    by (simp add: unat_add_lem [THEN iffD1])
qed

text \<open>
  Claim C3. On the staging path the sizes of the copies that are enqueued (the byte
  counts of the copies, and the sizes handed to \<^verbatim>\<open>AddWork\<close>) add up to the sum of the
  fragment lengths, as \<^verbatim>\<open>size_t\<close> and as natural numbers; the descriptor of the staging
  buffer has the \<^verbatim>\<open>size_t\<close> sum as its size (the sum of the natural numbers, when that is
  less than \<open>2^64\<close>), and still has it when the copies have run.
\<close>

theorem staged_copy_sizes_sum_to_fragment_lengths:
  assumes "buffers input \<noteq> []"
  shows "\<exists>c st1 ws.
           ScheduleInputCopy st input = (Inr c, st1)
         \<and> thread_pool st1 = thread_pool st @ ws
         \<and> length ws = length (buffers input)
         \<and> sum_list (map (\<lambda>w. nbytes (work w)) ws) = sum_list (map size_d (buffers input))
         \<and> sum_list (map (\<lambda>w. unat (nbytes (work w))) ws)
             = sum_list (map (\<lambda>f. unat (size_d f)) (buffers input))
         \<and> sum_list (map priority ws) = sum_list (map size_d (buffers input))
         \<and> map size_d (buffers c) = [sum_list (map size_d (buffers input))]
         \<and> (sum_list (map (\<lambda>f. unat (size_d f)) (buffers input)) < 2 ^ 64 \<longrightarrow>
               map (\<lambda>d. unat (size_d d)) (buffers c)
                 = [sum_list (map (\<lambda>f. unat (size_d f)) (buffers input))])
         \<and> (\<forall>r st2. RunInputCopy api st1 = (r, st2) \<longrightarrow>
               size_d (GetDescr (pool_entry st2
                  (if device (hd (buffers input)) = CPU then CPU else GPU)
                  (name (meta input) @ ''_inp'')))
               = sum_list (map size_d (buffers input)))"
proof -
  define dev where "dev = (if device (buffers input ! 0) = CPU then CPU else GPU)"
  define key where "key = name (meta input) @ ''_inp''"
  define b where "b = resized (pool_entry st dev key) (total_size (buffers input))"
  define st0 where "st0 = pool_store st dev key b"
  define ws where "ws = input_works (Dev b) (Ptr (vec_data (buffer b)) 0) (buffers input)"
  define st1 where "st1 = st0\<lparr>thread_pool := thread_pool st0 @ ws\<rparr>"
  have hd0: "buffers input ! 0 = hd (buffers input)"
    using assms by (simp add: hd_conv_nth)
  have eq: "ScheduleInputCopy st input = (Inr \<lparr>meta = meta input, buffers = [GetDescr b]\<rparr>, st1)"
    using ScheduleInputCopy_eq [OF assms, of st]
    by (simp add: Let_def dev_def key_def b_def st0_def ws_def st1_def)
  have fb: "filled b = sum_list (map size_d (buffers input))"
    by (simp add: b_def resized_simps total_size_sum)
  have e1: "pool_entry st1 dev key = b"
    by (simp add: st1_def st0_def pool_entry_store_same)
  have after: "\<forall>r st2. RunInputCopy api st1 = (r, st2) \<longrightarrow>
      size_d (GetDescr (pool_entry st2 dev key)) = sum_list (map size_d (buffers input))"
    using RunAll_filled [of api st1 _ _ dev key] e1 fb
    by (auto simp: RunInputCopy_def GetDescr_def)
  show ?thesis
    apply (rule exI [of _ "\<lparr>meta = meta input, buffers = [GetDescr b]\<rparr>"])
    apply (rule exI [of _ st1])
    apply (rule exI [of _ ws])
    using eq after unat_sum_sizes [of "buffers input"]
    by (simp add: st1_def st0_def pool_store_simps ws_def input_works_length input_works_sums
        GetDescr_def fb dev_def key_def hd0)
qed

theorem staged_copy_sizes_sum_to_fragment_lengths_witness:
  "buffers (demo_input ''x'' 2 7 [frag 0 0 3 CPU 0, frag 1 0 4 CPU 0]) \<noteq> []
   \<and> (\<exists>c st1 ws.
         ScheduleInputCopy demo_exec (demo_input ''x'' 2 7 [frag 0 0 3 CPU 0, frag 1 0 4 CPU 0])
           = (Inr c, st1)
       \<and> thread_pool st1 = ws \<and> length ws = Suc (Suc 0)
       \<and> sum_list (map (\<lambda>w. unat (nbytes (work w))) ws) = 7
       \<and> map size_d (buffers c) = [7])"
proof -
  let ?inp = "demo_input ''x'' 2 7 [frag 0 0 3 CPU 0, frag 1 0 4 CPU 0]"
  have ne: "buffers ?inp \<noteq> []" by (simp add: demo_input_simps)
  have "\<exists>c st1 ws.
         ScheduleInputCopy demo_exec ?inp = (Inr c, st1)
       \<and> thread_pool st1 = thread_pool demo_exec @ ws
       \<and> length ws = length (buffers ?inp)
       \<and> sum_list (map (\<lambda>w. unat (nbytes (work w))) ws)
           = sum_list (map (\<lambda>f. unat (size_d f)) (buffers ?inp))
       \<and> map size_d (buffers c) = [sum_list (map size_d (buffers ?inp))]"
    using staged_copy_sizes_sum_to_fragment_lengths [OF ne, of demo_exec demo_api]
    by (elim exE conjE) (intro exI conjI, assumption+)
  then show ?thesis
    using ne by (simp add: demo_input_simps demo_exec_simps frag_simps)
qed





lemma MemCopy_fields':
  assumes "MemCopy st t = Inr st1"
  shows "thread_pool st1 = thread_pool st" and "trace st1 = trace st"
  using MemCopy_fields [OF assms] by simp_all

lemma run_works_effect:
  assumes "run_works st ws = (r, st1)"
  shows "\<exists>k \<le> length ws. trace st1 = trace st @ map (\<lambda>w. EvMemCopy (work w)) (take k ws)
           \<and> (r = Inr () \<longrightarrow> k = length ws)
           \<and> thread_pool st1 = thread_pool st"
  using assms
proof (induction ws arbitrary: st)
  case Nil
  then show ?case by auto
next
  case (Cons w ws)
  let ?st = "st\<lparr>trace := trace st @ [EvMemCopy (work w)]\<rparr>"
  show ?case
  proof (cases "MemCopy ?st (work w)")
    case (Inl e)
    with Cons.prems have "st1 = ?st" and "r = Inl e" by auto
    then show ?thesis by (intro exI [of _ "Suc 0"]) auto
  next
    case (Inr st2)
    with Cons.prems have "run_works st2 ws = (r, st1)" by simp
    from Cons.IH [OF this] obtain k where
      "k \<le> length ws" "trace st1 = trace st2 @ map (\<lambda>w. EvMemCopy (work w)) (take k ws)"
      "r = Inr () \<longrightarrow> k = length ws" "thread_pool st1 = thread_pool st2"
      by blast
    with MemCopy_fields' [OF Inr] show ?thesis
      by (intro exI [of _ "Suc k"]) auto
  qed
qed

lemma RunAll_effect:
  assumes "RunAll api st = (r, st1)"
  shows "\<exists>k \<le> length (schedule api (thread_pool st)).
           trace st1 = trace st @ map (\<lambda>w. EvMemCopy (work w)) (take k (schedule api (thread_pool st)))
           \<and> (r = Inr () \<longrightarrow> k = length (schedule api (thread_pool st)))
           \<and> thread_pool st1 = []"
  using run_works_effect [OF assms [unfolded RunAll_def]] by simp


lemma demo_api_simps:
  "schedule demo_api = rev"
  "PutOutput demo_api h p i d = (None, h)"
  "SyncOutputStream demo_api h = (None, h)"
  "daliGetOutputDevice demo_api h i = CPU"
  "SetInput demo_api = demo_set_input"
  "daliRun demo_api = demo_run"
  "daliOutputRelease demo_api h = (None, h)"
  "daliOutput demo_api h = (None, h)"
  "handle_valid demo_api = demo_valid"
  "daliCreatePipeline demo_api s b t n = DemoHandle True []"
  "daliDeletePipeline demo_api h = DemoHandle False []"
  "daliGetNumOutput demo_api h = 1"
  "daliTypeAt demo_api h i = 0"
  "GetOutputShapes demo_api h = [\<lparr>num_samples = 2, num_elements = 7\<rparr>]"
  by (simp_all add: demo_api_def)



lemma ScheduleInputCopy_fields:
  assumes "ScheduleInputCopy st inp = (r, st1)"
  shows "pipeline st1 = pipeline st" and "trace st1 = trace st"
  using assms
  by (auto simp: ScheduleInputCopy_def staging_buffer_eq pool_store_simps split: if_splits)

lemma prepare_input_fields:
  assumes "prepare_input api st inp = (r, st1)"
  shows "pipeline st1 = pipeline st" and "trace st1 = trace st"
  using assms ScheduleInputCopy_fields [of st inp]
  by (auto simp: prepare_input_def split: if_splits prod.splits sum.splits)

lemma prepare_inputs_fields:
  assumes "prepare_inputs api st inputs acc = (r, st1)"
  shows "pipeline st1 = pipeline st \<and> trace st1 = trace st"
  using assms
proof (induction inputs arbitrary: st acc)
  case Nil
  then show ?case by simp
next
  case (Cons inp inputs)
  obtain r0 st0 where p: "prepare_input api st inp = (r0, st0)"
    by (cases "prepare_input api st inp")
  show ?case
  proof (cases r0)
    case (Inl e)
    with Cons.prems p prepare_input_fields [OF p] show ?thesis by auto
  next
    case (Inr c)
    with Cons.prems p have "prepare_inputs api st0 inputs (acc @ [c]) = (r, st1)" by simp
    from Cons.IH [OF this] prepare_input_fields [OF p] show ?thesis by simp
  qed
qed

lemma run_works_pipeline:
  assumes "run_works st ws = (r, st1)"
  shows "pipeline st1 = pipeline st"
  using assms
proof (induction ws arbitrary: st)
  case Nil
  then show ?case by simp
next
  case (Cons w ws)
  show ?case
  proof (cases "MemCopy (st\<lparr>trace := trace st @ [EvMemCopy (work w)]\<rparr>) (work w)")
    case (Inl e)
    with Cons.prems show ?thesis by auto
  next
    case (Inr st2)
    with Cons.prems have "run_works st2 ws = (r, st1)" by simp
    from Cons.IH [OF this] MemCopy_fields(3) [OF Inr] show ?thesis by simp
  qed
qed

lemma pl_config_handle [simp]: "pl_config (pl\<lparr>handle := h\<rparr>) = pl_config pl"
  by (simp add: pl_config_def)

lemma fresh_pipeline_cong:
  "pl_config pl = pl_config pl' \<Longrightarrow> fresh_pipeline api pl = fresh_pipeline api pl'"
  by (cases pl; cases pl') (simp add: pl_config_def fresh_pipeline_def)

lemma set_inputs_fields:
  assumes "set_inputs api st c_inputs = (r, st1)"
  shows "thread_pool st1 = thread_pool st \<and> pl_config (pipeline st1) = pl_config (pipeline st)"
  using assms
proof (induction c_inputs arbitrary: st)
  case Nil
  then show ?case by simp
next
  case (Cons c c_inputs)
  obtain x st0 where s: "pipeline_SetInput api st c = (x, st0)"
    by (cases "pipeline_SetInput api st c")
  then have f: "thread_pool st0 = thread_pool st"
    "pl_config (pipeline st0) = pl_config (pipeline st)"
    by (auto simp: pipeline_SetInput_def split: prod.splits)
  show ?case
  proof (cases x)
    case (Some ex)
    with Cons.prems s f show ?thesis by auto
  next
    case None
    with Cons.prems s have "set_inputs api st0 c_inputs = (r, st1)" by simp
    from Cons.IH [OF this] f show ?thesis by simp
  qed
qed

lemma SetupInputs_success:
  assumes "SetupInputs api st inputs = (Inr (), st1)"
  shows "thread_pool st1 = []"
    and "pl_config (pipeline st1) = pl_config (pipeline st)"
proof -
  from assms have ne: "inputs \<noteq> []" by (auto simp: SetupInputs_def split: if_splits)
  obtain r0 st0 where p: "prepare_inputs api st inputs [] = (r0, st0)"
    by (cases "prepare_inputs api st inputs []")
  with assms ne obtain c_inputs where r0: "r0 = Inr c_inputs"
    by (cases r0) (auto simp: SetupInputs_def split: if_splits)
  obtain r2 st2 where r: "RunAll api st0 = (r2, st2)"
    by (cases "RunAll api st0")
  with assms ne p r0 have r2: "r2 = Inr ()"
    by (cases r2) (auto simp: SetupInputs_def RunInputCopy_def split: if_splits)
  from assms ne p r0 r r2 have s: "set_inputs api st2 c_inputs = (Inr (), st1)"
    by (auto simp: SetupInputs_def RunInputCopy_def split: if_splits)
  from RunAll_effect [OF r] have q2: "thread_pool st2 = []" by blast
  from run_works_pipeline [OF r [unfolded RunAll_def]] have p2: "pipeline st2 = pipeline st0" by simp
  from prepare_inputs_fields [OF p] have p0: "pipeline st0 = pipeline st" by simp
  from set_inputs_fields [OF s] q2 show "thread_pool st1 = []" by simp
  from set_inputs_fields [OF s] p2 p0
  show "pl_config (pipeline st1) = pl_config (pipeline st)" by simp
qed

lemma run_and_output_fields:
  assumes "run_and_output api st = (x, st1)"
  shows "thread_pool st1 = thread_pool st"
    and "pl_config (pipeline st1) = pl_config (pipeline st)"
    and "trace st1 = trace st @ [EvRun] \<or> trace st1 = trace st @ [EvRun, EvOutput]"
  using assms
  by (auto simp: run_and_output_def pipeline_Run_def pipeline_Output_def
      split: prod.splits option.splits)

lemma Reset_fresh:
  assumes "handle_valid api (handle (fresh_pipeline api pl))"
  shows "Reset api pl = (None, fresh_pipeline api pl)"
  using assms
  by (simp add: Reset_def CreatePipeline_def ReleasePipeline_def fresh_pipeline_def Let_def)

lemmas demo_eval =
  SetupInputs_def prepare_input_def IsNoCopy_def DeviceId_def RunInputCopy_def RunAll_def
  pipeline_SetInput_def run_and_output_def pipeline_Run_def pipeline_Output_def
  Reset_def ReleasePipeline_def CreatePipeline_def output_infos_def GetNumOutput_def
  GetOutputType_def GetOutputDevice_def
  demo_input_simps frag_simps demo_api_simps
  ScheduleInputCopy_def staging_buffer_eq add_input_copies_eq GetDescr_def resized_def resize_eq
  pool_store_def pool_entry_def pool_of_def IOBuffer_new_def vec_resize_def vec_size_def
  total_size_def MemCopy_def read_bytes_def write_bytes_def region_bytes_def
  set_region_bytes_def write_at_def set_elems_def

lemma bad_setup:
  "SetupInputs demo_api demo_exec bad_inputs =
     (Inr (), demo_exec\<lparr>pipeline := (pipeline demo_exec)\<lparr>handle := DemoHandle True [''bad'']\<rparr>,
                        trace := [EvSetInput (demo_input ''bad'' 2 3 [frag 0 0 3 CPU 0])]\<rparr>)"
  by (simp add: bad_inputs_def demo_eval demo_exec_def)

lemma bad_run_and_output:
  "run_and_output demo_api
     (demo_exec\<lparr>pipeline := (pipeline demo_exec)\<lparr>handle := DemoHandle True [''bad'']\<rparr>,
                trace := [EvSetInput (demo_input ''bad'' 2 3 [frag 0 0 3 CPU 0])]\<rparr>)
   = (Some (RuntimeError ''bad input''),
      demo_exec\<lparr>pipeline := (pipeline demo_exec)\<lparr>handle := DemoHandle True [''bad'']\<rparr>,
                trace := [EvSetInput (demo_input ''bad'' 2 3 [frag 0 0 3 CPU 0]), EvRun]\<rparr>)"
  by (simp add: demo_eval demo_exec_def)

lemma bad_run:
  "Run demo_api demo_exec bad_inputs = (Inl (Thrown (RuntimeError ''bad input'')), after_bad)"
  by (simp add: Run_def bad_setup bad_run_and_output after_bad_def)
     (simp add: demo_eval demo_exec_def)

lemma good_after_bad:
  "fst (Run demo_api after_bad good_inputs)
     = Inr [\<lparr>out_shape = \<lparr>num_samples = 2, num_elements = 7\<rparr>, out_type = 0, out_device = CPU\<rparr>]"
  by (simp add: Run_def good_inputs_def after_bad_def demo_eval demo_exec_def)

lemma oom_run:
  "Run demo_api demo_exec oom_inputs = (Inl (Thrown (OtherException ''bad_alloc'')), after_oom)"
  by (simp add: Run_def oom_inputs_def after_oom_def demo_eval demo_exec_def)

lemma good_after_oom:
  "fst (Run demo_api after_oom good_inputs) = Inl (Thrown (OtherException ''bad_alloc''))"
  by (simp add: Run_def good_inputs_def after_oom_def demo_eval demo_exec_def)

lemma length_write_at: "i + length bs \<le> length xs \<Longrightarrow> length (write_at i bs xs) = length xs"
  by (simp add: write_at_def)

lemma nth_write_at:
  assumes "i + length bs \<le> length xs" and "k < length xs"
  shows "write_at i bs xs ! k = (if i \<le> k \<and> k < i + length bs then bs ! (k - i) else xs ! k)"
  using assms by (auto simp: write_at_def nth_append)

lemma length_write_safe [simp]: "length (write_safe i bs xs) = length xs"
  by (simp add: write_safe_def length_write_at)

lemma nth_write_safe:
  assumes "k < length xs"
  shows "write_safe i bs xs ! k =
           (if i + length bs \<le> length xs \<and> i \<le> k \<and> k < i + length bs then bs ! (k - i) else xs ! k)"
  using assms by (simp add: write_safe_def nth_write_at)

lemma write_safe_commute:
  assumes "i + length a \<le> j \<or> j + length b \<le> i"
  shows "write_safe i a (write_safe j b xs) = write_safe j b (write_safe i a xs)"
proof (rule nth_equalityI)
  show "length (write_safe i a (write_safe j b xs)) = length (write_safe j b (write_safe i a xs))"
    by simp
next
  fix k assume "k < length (write_safe i a (write_safe j b xs))"
  then have k: "k < length xs" by simp
  then show "write_safe i a (write_safe j b xs) ! k = write_safe j b (write_safe i a xs) ! k"
    using assms by (auto simp: nth_write_safe)
qed

lemma length_task_bytes: "length (task_bytes st t) \<le> unat (nbytes t)"
  by (auto simp: task_bytes_def read_bytes_def split: option.splits)

lemma input_works_offsets:
  "w \<in> set (input_works dev (Ptr r i) bufs) \<Longrightarrow> i \<le> ptr_offset (dst (work w))"
proof (induction bufs arbitrary: i)
  case Nil
  then show ?case by simp
next
  case (Cons buf bufs)
  from Cons.prems consider
    "w = \<lparr>work = \<lparr>dst_dev = dev, dst = Ptr r i, src_dev = device buf, src = data buf,
                  nbytes = size_d buf\<rparr>, priority = size_d buf, start_immediately = True\<rparr>"
    | "w \<in> set (input_works dev (Ptr r (i + unat (size_d buf))) bufs)"
    by auto
  then show ?case
  proof cases
    case 1
    then show ?thesis by simp
  next
    case 2
    from Cons.IH [OF this] show ?thesis by simp
  qed
qed

lemma input_works_pair:
  assumes "x \<in> set (input_works dev (Ptr r i) bufs)"
    and "y \<in> set (input_works dev (Ptr r i) bufs)"
  shows "x = y
       \<or> ptr_offset (dst (work x)) + unat (nbytes (work x)) \<le> ptr_offset (dst (work y))
       \<or> ptr_offset (dst (work y)) + unat (nbytes (work y)) \<le> ptr_offset (dst (work x))"
  using assms
proof (induction bufs arbitrary: i)
  case Nil
  then show ?case by simp
next
  case (Cons buf bufs)
  let ?h = "\<lparr>work = \<lparr>dst_dev = dev, dst = Ptr r i, src_dev = device buf, src = data buf,
                  nbytes = size_d buf\<rparr>, priority = size_d buf, start_immediately = True\<rparr>"
  let ?rest = "input_works dev (Ptr r (i + unat (size_d buf))) bufs"
  from Cons.prems have x: "x = ?h \<or> x \<in> set ?rest" and y: "y = ?h \<or> y \<in> set ?rest"
    by auto
  show ?case
  proof (cases "x = ?h")
    case xh: True
    show ?thesis
    proof (cases "y = ?h")
      case True
      with xh show ?thesis by simp
    next
      case False
      with y have "y \<in> set ?rest" by simp
      from input_works_offsets [OF this] xh show ?thesis by simp
    qed
  next
    case xr: False
    with x have xin: "x \<in> set ?rest" by simp
    show ?thesis
    proof (cases "y = ?h")
      case True
      with input_works_offsets [OF xin] show ?thesis by simp
    next
      case False
      with y have "y \<in> set ?rest" by simp
      from Cons.IH [OF xin this] show ?thesis .
    qed
  qed
qed

lemma copy_write_commute:
  assumes "x \<in> set (input_works dev (Ptr r i) bufs)"
    and "y \<in> set (input_works dev (Ptr r i) bufs)"
  shows "copy_write st x \<circ> copy_write st y = copy_write st y \<circ> copy_write st x"
proof -
  from input_works_pair [OF assms] consider "x = y"
    | "ptr_offset (dst (work x)) + unat (nbytes (work x)) \<le> ptr_offset (dst (work y))"
    | "ptr_offset (dst (work y)) + unat (nbytes (work y)) \<le> ptr_offset (dst (work x))"
    by blast
  then show ?thesis
  proof cases
    case 1
    then show ?thesis by simp
  next
    case 2
    with length_task_bytes [of st "work x"]
    have "ptr_offset (dst (work x)) + length (task_bytes st (work x)) \<le> ptr_offset (dst (work y))"
      by simp
    then show ?thesis
      by (auto simp: copy_write_def fun_eq_iff intro: write_safe_commute)
  next
    case 3
    with length_task_bytes [of st "work y"]
    have "ptr_offset (dst (work y)) + length (task_bytes st (work y)) \<le> ptr_offset (dst (work x))"
      by simp
    then show ?thesis
      by (auto simp: copy_write_def fun_eq_iff intro: write_safe_commute)
  qed
qed

lemma fold_input_works:
  assumes "\<forall>f \<in> set bufs. length (frag_bytes st f) = unat (size_d f)"
    and "i + sum_list (map (\<lambda>f. unat (size_d f)) bufs) \<le> length xs"
  shows "fold (copy_write st) (input_works dev (Ptr r i) bufs) xs
         = take i xs @ concat (map (frag_bytes st) bufs)
           @ drop (i + sum_list (map (\<lambda>f. unat (size_d f)) bufs)) xs"
  using assms
proof (induction bufs arbitrary: i xs)
  case Nil
  then show ?case by simp
next
  case (Cons buf bufs)
  let ?n = "unat (size_d buf)"
  let ?b = "frag_bytes st buf"
  let ?w = "\<lparr>work = \<lparr>dst_dev = dev, dst = Ptr r i, src_dev = device buf, src = data buf,
                  nbytes = size_d buf\<rparr>, priority = size_d buf, start_immediately = True\<rparr>"
  let ?s = "sum_list (map (\<lambda>f. unat (size_d f)) bufs)"
  from Cons.prems have lb: "length ?b = ?n" and le: "i + ?n + ?s \<le> length xs" by simp_all
  have tb: "task_bytes st \<lparr>dst_dev = dev, dst = Ptr r i, src_dev = device buf, src = data buf,
                  nbytes = size_d buf\<rparr> = ?b" by (simp add: task_bytes_def frag_bytes_def)
  have w: "copy_write st ?w xs = take i xs @ ?b @ drop (i + ?n) xs"
    using lb le by (simp add: copy_write_def tb write_safe_def write_at_def)
  let ?xs = "take i xs @ ?b @ drop (i + ?n) xs"
  have len: "length ?xs = length xs" using lb le by simp
  have "fold (copy_write st) (input_works dev (Ptr r (i + ?n)) bufs) ?xs
        = take (i + ?n) ?xs @ concat (map (frag_bytes st) bufs) @ drop (i + ?n + ?s) ?xs"
    using Cons.prems le len by (intro Cons.IH) simp_all
  moreover have "take (i + ?n) ?xs = take i xs @ ?b" using lb le by simp
  moreover have "drop (i + ?n + ?s) ?xs = drop (i + ?n + ?s) xs"
    using lb le by (simp add: ac_simps)
  ultimately show ?case
    using w by (simp add: add.assoc)
qed

lemma region_bytes_upd [simp]:
  "region_bytes (st\<lparr>trace := tr\<rparr>) r = region_bytes st r"
  "region_bytes (st\<lparr>thread_pool := q\<rparr>) r = region_bytes st r"
  by (simp_all add: region_bytes_def split: region.splits device_type_t.splits)

lemma read_bytes_upd [simp]:
  "read_bytes (st\<lparr>trace := tr\<rparr>) p n = read_bytes st p n"
  "read_bytes (st\<lparr>thread_pool := q\<rparr>) p n = read_bytes st p n"
  by (simp_all add: read_bytes_def)

lemma task_bytes_upd [simp]:
  "task_bytes (st\<lparr>trace := tr\<rparr>) t = task_bytes st t"
  "task_bytes (st\<lparr>thread_pool := q\<rparr>) t = task_bytes st t"
  by (simp_all add: task_bytes_def)

lemma read_bytes_caller:
  "caller_mem st = caller_mem st' \<Longrightarrow>
     read_bytes st (Ptr (Caller k) i) n = read_bytes st' (Ptr (Caller k) i) n"
  by (simp add: read_bytes_def region_bytes_def)

lemma region_bytes_set:
  assumes "region_bytes st r = Some ys"
  shows "region_bytes (set_region_bytes st r xs) r' = (if r' = r then Some xs else region_bytes st r')"
proof (cases r)
  case (Caller k)
  then show ?thesis
    by (cases r') (auto simp: region_bytes_def set_region_bytes_def split: device_type_t.splits)
next
  case (Staging d key)
  with assms show ?thesis
    by (cases r'; cases d)
       (auto simp: region_bytes_def set_region_bytes_def set_elems_def split: device_type_t.splits)
qed

lemma caller_mem_set_staging:
  "caller_mem (set_region_bytes st (Staging d key) xs) = caller_mem st"
  by (simp add: set_region_bytes_def split: device_type_t.splits)

lemma MemCopy_staging:
  assumes "MemCopy st t = Inr st1" and "ptr_region (dst t) = Staging d key"
  shows "caller_mem st1 = caller_mem st"
    and "\<exists>bs ys. read_bytes st (src t) (unat (nbytes t)) = Some bs
           \<and> region_bytes st (Staging d key) = Some ys
           \<and> ptr_offset (dst t) + length bs \<le> length ys
           \<and> (\<forall>r'. region_bytes st1 r' =
                 (if r' = Staging d key then Some (write_at (ptr_offset (dst t)) bs ys)
                  else region_bytes st r'))"
  using assms
  by (auto simp: MemCopy_def write_bytes_def caller_mem_set_staging region_bytes_set
      split: option.splits if_splits)

lemma length_read_bytes: "read_bytes st p n = Some bs \<Longrightarrow> length bs = n"
  by (auto simp: read_bytes_def split: option.splits if_splits)

lemma run_works_region:
  assumes "run_works st ws = (Inr (), st1)"
    and "\<forall>w \<in> set ws. \<exists>d key. ptr_region (dst (work w)) = Staging d key"
    and "\<forall>w \<in> set ws. ptr_region (dst (work w)) = R \<longrightarrow> (\<exists>k i. src (work w) = Ptr (Caller k) i)"
    and "region_bytes st R = Some xs"
  shows "caller_mem st1 = caller_mem st
       \<and> region_bytes st1 R
           = Some (fold (copy_write st) (filter (\<lambda>w. ptr_region (dst (work w)) = R) ws) xs)
       \<and> (\<forall>w \<in> set ws. ptr_region (dst (work w)) = R \<longrightarrow>
             length (task_bytes st (work w)) = unat (nbytes (work w)))"
  using assms
proof (induction ws arbitrary: st xs)
  case Nil
  then show ?case by simp
next
  case (Cons w ws)
  let ?st = "st\<lparr>trace := trace st @ [EvMemCopy (work w)]\<rparr>"
  let ?toR = "\<lambda>w. ptr_region (dst (work w)) = R"
  from Cons.prems(1) obtain st2 where
    mc: "MemCopy ?st (work w) = Inr st2" and rest: "run_works st2 ws = (Inr (), st1)"
    by (cases "MemCopy ?st (work w)") auto
  from Cons.prems(2) obtain d key where dk: "ptr_region (dst (work w)) = Staging d key"
    by auto
  from MemCopy_staging [OF mc dk] obtain bs ys where
    cm: "caller_mem st2 = caller_mem st"
    and rd: "read_bytes st (src (work w)) (unat (nbytes (work w))) = Some bs"
    and ry: "region_bytes st (Staging d key) = Some ys"
    and inb: "ptr_offset (dst (work w)) + length bs \<le> length ys"
    and after: "\<forall>r'. region_bytes st2 r' =
                 (if r' = Staging d key then Some (write_at (ptr_offset (dst (work w))) bs ys)
                  else region_bytes st r')"
    by auto
  have tbw: "task_bytes st (work w) = bs" using rd by (simp add: task_bytes_def)
  have lbs: "length bs = unat (nbytes (work w))" using rd by (rule length_read_bytes)
  define xs2 where "xs2 = (if ?toR w then copy_write st w xs else xs)"
  have r2: "region_bytes st2 R = Some xs2"
  proof (cases "?toR w")
    case True
    with dk ry Cons.prems(4) have "ys = xs" by simp
    with True dk after inb tbw show ?thesis
      by (simp add: xs2_def copy_write_def write_safe_def)
  next
    case False
    with dk after Cons.prems(4) show ?thesis by (auto simp: xs2_def)
  qed
  have p2: "\<forall>w \<in> set ws. \<exists>d key. ptr_region (dst (work w)) = Staging d key"
    and p3: "\<forall>w \<in> set ws. ?toR w \<longrightarrow> (\<exists>k i. src (work w) = Ptr (Caller k) i)"
    using Cons.prems(2,3) by simp_all
  from Cons.IH [OF rest p2 p3 r2] have
    a1: "caller_mem st1 = caller_mem st2"
    and a2: "region_bytes st1 R = Some (fold (copy_write st2) (filter ?toR ws) xs2)"
    and a3: "\<forall>w \<in> set ws. ?toR w \<longrightarrow> length (task_bytes st2 (work w)) = unat (nbytes (work w))"
    by simp_all
  have same: "task_bytes st2 (work v) = task_bytes st (work v)" if "v \<in> set ws" "?toR v" for v
  proof -
    from p3 that obtain k i where "src (work v) = Ptr (Caller k) i" by blast
    with read_bytes_caller [OF cm] show ?thesis by (simp add: task_bytes_def)
  qed
  have cw: "copy_write st2 v = copy_write st v" if "v \<in> set (filter ?toR ws)" for v
    using that same by (simp add: copy_write_def)
  have f: "fold (copy_write st2) (filter ?toR ws) xs2 = fold (copy_write st) (filter ?toR ws) xs2"
    by (rule fold_cong) (simp_all add: cw)
  have g: "fold (copy_write st) (filter ?toR (w # ws)) xs = fold (copy_write st) (filter ?toR ws) xs2"
    by (simp add: xs2_def)
  have l: "\<forall>v \<in> set (w # ws). ?toR v \<longrightarrow> length (task_bytes st (work v)) = unat (nbytes (work v))"
    using a3 same tbw lbs by auto
  from a1 cm a2 f g l show ?case by simp
qed

lemma resized_length:
  assumes "length (vec_elems (buffer b)) < 2 ^ 64"
  shows "unat n \<le> length (vec_elems (buffer (resized b n)))"
proof (cases "vec_size (buffer b) < n")
  case True
  then show ?thesis by (simp add: resized_def resize_eq length_vec_resize)
next
  case False
  then have "n \<le> vec_size (buffer b)" by simp
  then have "unat n \<le> unat (of_nat (length (vec_elems (buffer b))) :: size_t)"
    by (simp add: vec_size_def word_le_nat_alt)
  also have "\<dots> = length (vec_elems (buffer b))"
    using assms by (simp add: unat_of_nat)
  finally show ?thesis using False by (simp add: resized_def resize_eq)
qed

lemma region_bytes_pool_store:
  "region_bytes (pool_store st dev key b) (Staging dev key) = Some (vec_elems (buffer b))"
  by (cases dev) (simp_all add: region_bytes_def pool_store_def)

lemma input_works_of_frag:
  "f \<in> set bufs \<Longrightarrow>
     \<exists>w \<in> set (input_works dev d bufs). src (work w) = data f \<and> nbytes (work w) = size_d f"
  by (induction bufs arbitrary: d) auto

lemma input_works_nth:
  "i < length bufs \<Longrightarrow>
     input_works dev (Ptr r j) bufs ! i =
       \<lparr>work = \<lparr>dst_dev = dev,
                 dst = Ptr r (j + sum_list (map (\<lambda>f. unat (size_d f)) (take i bufs))),
                 src_dev = device (bufs ! i), src = data (bufs ! i), nbytes = size_d (bufs ! i)\<rparr>,
        priority = size_d (bufs ! i), start_immediately = True\<rparr>"
proof (induction bufs arbitrary: i j)
  case Nil
  then show ?case by simp
next
  case (Cons buf bufs)
  then show ?case by (cases i) (simp_all add: add.assoc)
qed

lemma frag_bytes_caller:
  assumes "caller_mem st' = caller_mem st" and "data f = Ptr (Caller k) i"
  shows "frag_bytes st' f = frag_bytes st f"
  using assms read_bytes_caller [OF assms(1), of k i] by (simp add: frag_bytes_def)

text \<open>
  Claim C2. Let an input with at least one fragment go through \<^verbatim>\<open>ScheduleInputCopy\<close>, its
  fragments lying in caller memory and their lengths adding up to less than \<open>2^64\<close>.
  Then the descriptor handed on has exactly one fragment, which points at the start of
  the staging buffer under the key \<^verbatim>\<open>name + "_inp"\<close> and has the sum of the fragment
  lengths as its size; one copy is enqueued per fragment, in order, the \<open>i\<close>-th writing
  at the sum of the lengths of the fragments before it; and once \<^verbatim>\<open>RunInputCopy\<close> has
  run the copies, in whatever order the workers take them, the bytes that the
  descriptor describes are the fragments' bytes, concatenated in the order of the
  fragments. (Work already in the queue is assumed to write into other staging
  buffers.)
\<close>

theorem staged_input_is_concatenation:
  assumes "pools_ok st"
    and "buffers input \<noteq> []"
    and "\<forall>f \<in> set (buffers input). \<exists>k i. data f = Ptr (Caller k) i"
    and "sum_list (map (\<lambda>f. unat (size_d f)) (buffers input)) < 2 ^ 64"
    and "\<forall>w \<in> set (thread_pool st).
           \<exists>d key. ptr_region (dst (work w)) = Staging d key \<and> Staging d key \<noteq> inp_region input"
    and "\<forall>q. mset (schedule api q) = mset q"
    and "ScheduleInputCopy st input = (r, st1)"
    and "RunInputCopy api st1 = (Inr (), st2)"
  shows "\<exists>d ws.
           r = Inr \<lparr>meta = meta input, buffers = [d]\<rparr>
         \<and> data d = Ptr (inp_region input) 0
         \<and> device d = inp_dev input
         \<and> size_d d = sum_list (map size_d (buffers input))
         \<and> unat (size_d d) = sum_list (map (\<lambda>f. unat (size_d f)) (buffers input))
         \<and> thread_pool st1 = thread_pool st @ ws
         \<and> length ws = length (buffers input)
         \<and> (\<forall>i < length (buffers input).
               dst (work (ws ! i))
                 = Ptr (inp_region input)
                       (sum_list (map (\<lambda>f. unat (size_d f)) (take i (buffers input))))
             \<and> src (work (ws ! i)) = data (buffers input ! i)
             \<and> nbytes (work (ws ! i)) = size_d (buffers input ! i))
         \<and> read_bytes st2 (data d) (unat (size_d d))
             = Some (concat (map (frag_bytes st) (buffers input)))"
proof -
  let ?bufs = "buffers input"
  let ?sum = "sum_list (map (\<lambda>f. unat (size_d f)) ?bufs)"
  define dev where "dev = inp_dev input"
  define key where "key = name (meta input) @ ''_inp''"
  define R where "R = Staging dev key"
  define b where "b = resized (pool_entry st dev key) (total_size ?bufs)"
  define st0 where "st0 = pool_store st dev key b"
  define plan where "plan = input_works dev (Ptr R 0) ?bufs"
  define xs where "xs = vec_elems (buffer b)"
  have hd0: "?bufs ! 0 = hd ?bufs" using assms(2) by (simp add: hd_conv_nth)
  have RR: "inp_region input = R" by (simp add: inp_region_def R_def dev_def key_def)
  have Devb: "Dev b = dev" and datab: "vec_data (buffer b) = R"
    using pool_entry_ok(1,2) [OF assms(1), of dev key] by (simp_all add: b_def resized_simps R_def)
  have eq: "ScheduleInputCopy st input =
      (Inr \<lparr>meta = meta input, buffers = [GetDescr b]\<rparr>, st0\<lparr>thread_pool := thread_pool st0 @ plan\<rparr>)"
    using ScheduleInputCopy_eq [OF assms(2), of st] Devb datab
    by (simp add: Let_def dev_def inp_dev_def hd0 key_def b_def st0_def plan_def)
  with assms(7) have r: "r = Inr \<lparr>meta = meta input, buffers = [GetDescr b]\<rparr>"
    and st1: "st1 = st0\<lparr>thread_pool := thread_pool st0 @ plan\<rparr>"
    by simp_all
  have q0: "thread_pool st0 = thread_pool st" and cm0: "caller_mem st0 = caller_mem st"
    by (simp_all add: st0_def pool_store_simps)
  have tot: "unat (total_size ?bufs) = ?sum"
    using unat_sum_sizes [OF assms(4)] by (simp add: total_size_sum)
  have fb: "filled b = total_size ?bufs" by (simp add: b_def resized_simps)
  have len: "?sum \<le> length xs"
    using resized_length [OF pool_entry_ok(3) [OF assms(1), of dev key], of "total_size ?bufs"] tot
    by (simp add: xs_def b_def)
  let ?st1 = "st1\<lparr>thread_pool := []\<rparr>"
  let ?ws = "schedule api (thread_pool st1)"
  let ?toR = "\<lambda>w. ptr_region (dst (work w)) = R"
  have run: "run_works ?st1 ?ws = (Inr (), st2)"
    using assms(8) by (simp add: RunInputCopy_def RunAll_def)
  have ms: "mset ?ws = mset (thread_pool st) + mset plan"
    using assms(6) by (simp add: st1 q0)
  then have sets: "set ?ws = set (thread_pool st) \<union> set plan"
    by (metis mset_append set_append set_mset_mset)
  have planR: "\<forall>w \<in> set plan. ?toR w"
    using input_works_dst [of _ dev "Ptr R 0" ?bufs] by (auto simp: plan_def)
  have plan_src: "\<forall>w \<in> set plan. \<exists>k i. src (work w) = Ptr (Caller k) i"
    using input_works_src [of _ dev "Ptr R 0" ?bufs] assms(3) by (fastforce simp: plan_def)
  have oldR: "\<forall>w \<in> set (thread_pool st). \<not> ?toR w"
    using assms(5) RR by auto
  have h2: "\<forall>w \<in> set ?ws. \<exists>d key. ptr_region (dst (work w)) = Staging d key"
    using sets assms(5) planR by (auto simp: R_def)
  have h3: "\<forall>w \<in> set ?ws. ?toR w \<longrightarrow> (\<exists>k i. src (work w) = Ptr (Caller k) i)"
    using sets oldR plan_src by auto
  have h4: "region_bytes ?st1 R = Some xs"
    by (simp add: st1 st0_def R_def region_bytes_pool_store xs_def)
  from run_works_region [OF run h2 h3 h4] have
    c2: "region_bytes st2 R = Some (fold (copy_write ?st1) (filter ?toR ?ws) xs)"
    and c3: "\<forall>w \<in> set ?ws. ?toR w \<longrightarrow> length (task_bytes ?st1 (work w)) = unat (nbytes (work w))"
    by simp_all
  have "mset (filter ?toR ?ws) = mset (filter ?toR (thread_pool st @ plan))"
    using ms by (simp only: mset_filter mset_append)
  also have "filter ?toR (thread_pool st @ plan) = plan"
    using oldR planR by simp
  finally have mf: "mset plan = mset (filter ?toR ?ws)" by simp
  have fo: "fold (copy_write ?st1) plan = fold (copy_write ?st1) (filter ?toR ?ws)"
    by (rule fold_multiset_equiv [OF _ mf])
       (auto simp: plan_def intro: copy_write_commute)
  have lf: "\<forall>f \<in> set ?bufs. length (frag_bytes ?st1 f) = unat (size_d f)"
  proof
    fix f assume "f \<in> set ?bufs"
    from input_works_of_frag [OF this, of dev "Ptr R 0"] obtain w where
      w: "w \<in> set plan" "src (work w) = data f" "nbytes (work w) = size_d f"
      by (auto simp: plan_def)
    with c3 sets planR have "length (task_bytes ?st1 (work w)) = unat (nbytes (work w))" by auto
    with w show "length (frag_bytes ?st1 f) = unat (size_d f)"
      by (simp add: task_bytes_def frag_bytes_def)
  qed
  have "fold (copy_write ?st1) plan xs
        = take 0 xs @ concat (map (frag_bytes ?st1) ?bufs) @ drop (0 + ?sum) xs"
    unfolding plan_def using lf len by (intro fold_input_works) simp_all
  with c2 fo have c4: "region_bytes st2 R = Some (concat (map (frag_bytes ?st1) ?bufs) @ drop ?sum xs)"
    by simp
  have fr: "map (frag_bytes ?st1) ?bufs = map (frag_bytes st) ?bufs"
  proof (rule map_cong [OF refl])
    fix f assume "f \<in> set ?bufs"
    with assms(3) obtain k i where "data f = Ptr (Caller k) i" by blast
    then show "frag_bytes ?st1 f = frag_bytes st f"
      by (intro frag_bytes_caller) (simp_all add: st1 cm0)
  qed
  have lc: "length (concat (map (frag_bytes ?st1) ?bufs)) = ?sum"
    using lf by (simp add: length_concat comp_def cong: map_cong)
  have rd: "read_bytes st2 (Ptr R 0) ?sum = Some (concat (map (frag_bytes st) ?bufs))"
    using c4 lc fr by (simp add: read_bytes_def)
  have nth: "\<forall>i < length ?bufs.
               dst (work (plan ! i)) = Ptr R (sum_list (map (\<lambda>f. unat (size_d f)) (take i ?bufs)))
             \<and> src (work (plan ! i)) = data (?bufs ! i)
             \<and> nbytes (work (plan ! i)) = size_d (?bufs ! i)"
    by (simp add: plan_def input_works_nth)
  show ?thesis
    apply (rule exI [of _ "GetDescr b"])
    apply (rule exI [of _ plan])
    using r st1 q0 rd nth tot
    by (simp add: GetDescr_def Devb datab fb RR dev_def total_size_sum plan_def input_works_length)
qed

theorem staged_input_is_concatenation_witness:
  "fst (RunInputCopy demo_api
          (snd (ScheduleInputCopy demo_exec
                  (demo_input ''x'' 2 7 [frag 0 0 3 CPU 0, frag 1 0 4 CPU 0])))) = Inr ()
   \<and> read_bytes
        (snd (RunInputCopy demo_api
                (snd (ScheduleInputCopy demo_exec
                        (demo_input ''x'' 2 7 [frag 0 0 3 CPU 0, frag 1 0 4 CPU 0])))))
        (Ptr (Staging CPU ''x_inp'') 0) 7
      = Some [1, 2, 3, 4, 5, 6, 7]"
proof -
  let ?inp = "demo_input ''x'' 2 7 [frag 0 0 3 CPU 0, frag 1 0 4 CPU 0]"
  let ?st1 = "snd (ScheduleInputCopy demo_exec ?inp)"
  let ?st2 = "snd (RunInputCopy demo_api ?st1)"
  have h2: "buffers ?inp \<noteq> []" by (simp add: demo_input_simps)
  have h3: "\<forall>f \<in> set (buffers ?inp). \<exists>k i. data f = Ptr (Caller k) i"
    by (simp add: demo_input_simps frag_simps)
  have h4: "sum_list (map (\<lambda>f. unat (size_d f)) (buffers ?inp)) < 2 ^ 64"
    by (simp add: demo_input_simps frag_simps)
  have h5: "\<forall>w \<in> set (thread_pool demo_exec).
           \<exists>d key. ptr_region (dst (work w)) = Staging d key \<and> Staging d key \<noteq> inp_region ?inp"
    by (simp add: demo_exec_simps)
  have h6: "\<forall>q. mset (schedule demo_api q) = mset q" by (simp add: demo_api_simps)
  have h7: "ScheduleInputCopy demo_exec ?inp = (fst (ScheduleInputCopy demo_exec ?inp), ?st1)"
    by simp
  have ok: "fst (RunInputCopy demo_api ?st1) = Inr ()"
    by (simp add: demo_eval demo_exec_def)
  then have h8: "RunInputCopy demo_api ?st1 = (Inr (), ?st2)"
    by (metis prod.collapse)
  have "\<exists>d :: BufferDescr. data d = Ptr (inp_region ?inp) 0
         \<and> unat (size_d d) = sum_list (map (\<lambda>f. unat (size_d f)) (buffers ?inp))
         \<and> read_bytes ?st2 (data d) (unat (size_d d))
             = Some (concat (map (frag_bytes demo_exec) (buffers ?inp)))"
    using staged_input_is_concatenation [OF pools_ok_demo h2 h3 h4 h5 h6 h7 h8]
    by (elim exE conjE) (intro exI conjI, assumption+)
  then obtain d :: BufferDescr where
    "data d = Ptr (inp_region ?inp) 0"
    "unat (size_d d) = sum_list (map (\<lambda>f. unat (size_d f)) (buffers ?inp))"
    "read_bytes ?st2 (data d) (unat (size_d d))
       = Some (concat (map (frag_bytes demo_exec) (buffers ?inp)))"
    by blast
  then have "read_bytes ?st2 (Ptr (Staging CPU ''x_inp'') 0) 7
       = Some (concat (map (frag_bytes demo_exec) (buffers ?inp)))"
    by (simp add: inp_region_def inp_dev_def demo_input_simps frag_simps)
  moreover have "concat (map (frag_bytes demo_exec) (buffers ?inp)) = [1, 2, 3, 4, 5, 6, 7]"
    by (simp add: demo_input_simps frag_simps frag_bytes_def read_bytes_def region_bytes_def
        demo_exec_def)
  ultimately show ?thesis using ok by simp
qed

section \<open>The copies of a staged input complete\<close>

lemma MemCopy_lengths:
  assumes "MemCopy st t = Inr st1" and "ptr_region (dst t) = Staging d key"
    and "region_bytes st r' = Some zs"
  shows "\<exists>zs'. region_bytes st1 r' = Some zs' \<and> length zs' = length zs"
proof -
  from MemCopy_staging(2) [OF assms(1,2)] obtain bs ys where
    "region_bytes st (Staging d key) = Some ys"
    "ptr_offset (dst t) + length bs \<le> length ys"
    "\<forall>r'. region_bytes st1 r' =
         (if r' = Staging d key then Some (write_at (ptr_offset (dst t)) bs ys)
          else region_bytes st r')"
    by blast
  with assms(3) show ?thesis
    by (cases "r' = Staging d key") (auto simp: length_write_at)
qed

lemma run_works_succeeds:
  assumes "\<forall>w \<in> set ws. \<exists>k i ys. src (work w) = Ptr (Caller k) i \<and> caller_mem st k = Some ys
              \<and> i + unat (nbytes (work w)) \<le> length ys"
    and "\<forall>w \<in> set ws. \<exists>d key ys. ptr_region (dst (work w)) = Staging d key
              \<and> region_bytes st (Staging d key) = Some ys
              \<and> ptr_offset (dst (work w)) + unat (nbytes (work w)) \<le> length ys"
  shows "\<exists>st1. run_works st ws = (Inr (), st1)"
  using assms
proof (induction ws arbitrary: st)
  case Nil
  then show ?case by simp
next
  case (Cons w ws)
  let ?st = "st\<lparr>trace := trace st @ [EvMemCopy (work w)]\<rparr>"
  from Cons.prems(1) obtain k i ys where
    s: "src (work w) = Ptr (Caller k) i" "caller_mem st k = Some ys"
       "i + unat (nbytes (work w)) \<le> length ys"
    by auto
  from Cons.prems(2) obtain d key zs where
    t: "ptr_region (dst (work w)) = Staging d key" "region_bytes st (Staging d key) = Some zs"
       "ptr_offset (dst (work w)) + unat (nbytes (work w)) \<le> length zs"
    by auto
  have rd: "read_bytes ?st (src (work w)) (unat (nbytes (work w)))
              = Some (take (unat (nbytes (work w))) (drop i ys))"
    using s by (simp add: read_bytes_def region_bytes_def)
  have "\<exists>st2. MemCopy ?st (work w) = Inr st2"
    using rd t s by (simp add: MemCopy_def write_bytes_def)
  then obtain st2 where mc: "MemCopy ?st (work w) = Inr st2" by blast
  have cm: "caller_mem st2 = caller_mem st"
    using MemCopy_staging(1) [OF mc t(1)] by simp
  have p1: "\<forall>w \<in> set ws. \<exists>k i ys. src (work w) = Ptr (Caller k) i \<and> caller_mem st2 k = Some ys
              \<and> i + unat (nbytes (work w)) \<le> length ys"
    using Cons.prems(1) cm by simp
  have p2: "\<forall>w \<in> set ws. \<exists>d key ys. ptr_region (dst (work w)) = Staging d key
              \<and> region_bytes st2 (Staging d key) = Some ys
              \<and> ptr_offset (dst (work w)) + unat (nbytes (work w)) \<le> length ys"
  proof
    fix v assume "v \<in> set ws"
    with Cons.prems(2) obtain d' key' ys' where
      v: "ptr_region (dst (work v)) = Staging d' key'" "region_bytes st (Staging d' key') = Some ys'"
         "ptr_offset (dst (work v)) + unat (nbytes (work v)) \<le> length ys'"
      by auto
    from MemCopy_lengths [OF mc t(1), of "Staging d' key'" ys'] v(2)
    obtain zs' where "region_bytes st2 (Staging d' key') = Some zs'" "length zs' = length ys'"
      by auto
    with v show "\<exists>d key ys. ptr_region (dst (work v)) = Staging d key
              \<and> region_bytes st2 (Staging d key) = Some ys
              \<and> ptr_offset (dst (work v)) + unat (nbytes (work v)) \<le> length ys"
      by auto
  qed
  from Cons.IH [OF p1 p2] mc show ?case by simp
qed

lemma input_works_bound:
  "w \<in> set (input_works dev (Ptr r i) bufs) \<Longrightarrow>
     ptr_offset (dst (work w)) + unat (nbytes (work w))
       \<le> i + sum_list (map (\<lambda>f. unat (size_d f)) bufs)"
proof (induction bufs arbitrary: i)
  case Nil
  then show ?case by simp
next
  case (Cons buf bufs)
  from Cons.prems consider
    "w = \<lparr>work = \<lparr>dst_dev = dev, dst = Ptr r i, src_dev = device buf, src = data buf,
                  nbytes = size_d buf\<rparr>, priority = size_d buf, start_immediately = True\<rparr>"
    | "w \<in> set (input_works dev (Ptr r (i + unat (size_d buf))) bufs)"
    by auto
  then show ?case
  proof cases
    case 1
    then show ?thesis by simp
  next
    case 2
    from Cons.IH [OF this] show ?thesis by simp
  qed
qed

text \<open>
  The copies of a staged input do complete: when the queue holds nothing else and every
  fragment is a range of an allocation of the caller, \<^verbatim>\<open>RunInputCopy\<close> returns.
\<close>

lemma staged_input_copies_complete:
  assumes "pools_ok st"
    and "buffers input \<noteq> []"
    and "\<forall>f \<in> set (buffers input). \<exists>k i ys. data f = Ptr (Caller k) i
           \<and> caller_mem st k = Some ys \<and> i + unat (size_d f) \<le> length ys"
    and "sum_list (map (\<lambda>f. unat (size_d f)) (buffers input)) < 2 ^ 64"
    and "thread_pool st = []"
    and "\<forall>q. mset (schedule api q) = mset q"
    and "ScheduleInputCopy st input = (r, st1)"
  shows "\<exists>st2. RunInputCopy api st1 = (Inr (), st2)"
proof -
  let ?bufs = "buffers input"
  let ?sum = "sum_list (map (\<lambda>f. unat (size_d f)) ?bufs)"
  define dev where "dev = inp_dev input"
  define key where "key = name (meta input) @ ''_inp''"
  define R where "R = Staging dev key"
  define b where "b = resized (pool_entry st dev key) (total_size ?bufs)"
  define st0 where "st0 = pool_store st dev key b"
  define plan where "plan = input_works dev (Ptr R 0) ?bufs"
  define xs where "xs = vec_elems (buffer b)"
  have hd0: "?bufs ! 0 = hd ?bufs" using assms(2) by (simp add: hd_conv_nth)
  have Devb: "Dev b = dev" and datab: "vec_data (buffer b) = R"
    using pool_entry_ok(1,2) [OF assms(1), of dev key] by (simp_all add: b_def resized_simps R_def)
  have eq: "ScheduleInputCopy st input =
      (Inr \<lparr>meta = meta input, buffers = [GetDescr b]\<rparr>, st0\<lparr>thread_pool := thread_pool st0 @ plan\<rparr>)"
    using ScheduleInputCopy_eq [OF assms(2), of st] Devb datab
    by (simp add: Let_def dev_def inp_dev_def hd0 key_def b_def st0_def plan_def)
  with assms(7) have st1: "st1 = st0\<lparr>thread_pool := thread_pool st0 @ plan\<rparr>" by simp
  have q0: "thread_pool st0 = []" and cm0: "caller_mem st0 = caller_mem st"
    using assms(5) by (simp_all add: st0_def pool_store_simps)
  have tot: "unat (total_size ?bufs) = ?sum"
    using unat_sum_sizes [OF assms(4)] by (simp add: total_size_sum)
  have len: "?sum \<le> length xs"
    using resized_length [OF pool_entry_ok(3) [OF assms(1), of dev key], of "total_size ?bufs"] tot
    by (simp add: xs_def b_def)
  let ?st1 = "st1\<lparr>thread_pool := []\<rparr>"
  let ?ws = "schedule api (thread_pool st1)"
  have "thread_pool st1 = plan" by (simp add: st1 q0)
  with assms(6) have "mset ?ws = mset plan" by simp
  then have sets: "set ?ws = set plan" by (rule mset_eq_setD)
  have rb: "region_bytes ?st1 R = Some xs"
    by (simp add: st1 st0_def R_def region_bytes_pool_store xs_def)
  have p1: "\<forall>w \<in> set ?ws. \<exists>k i ys. src (work w) = Ptr (Caller k) i \<and> caller_mem ?st1 k = Some ys
              \<and> i + unat (nbytes (work w)) \<le> length ys"
  proof
    fix w assume "w \<in> set ?ws"
    with sets have "w \<in> set (input_works dev (Ptr R 0) ?bufs)" by (simp add: plan_def)
    from input_works_src [OF this] obtain f where
      "f \<in> set ?bufs" "src (work w) = data f" "nbytes (work w) = size_d f"
      by blast
    with assms(3) show "\<exists>k i ys. src (work w) = Ptr (Caller k) i \<and> caller_mem ?st1 k = Some ys
              \<and> i + unat (nbytes (work w)) \<le> length ys"
      by (fastforce simp: st1 cm0)
  qed
  have p2: "\<forall>w \<in> set ?ws. \<exists>d key ys. ptr_region (dst (work w)) = Staging d key
              \<and> region_bytes ?st1 (Staging d key) = Some ys
              \<and> ptr_offset (dst (work w)) + unat (nbytes (work w)) \<le> length ys"
  proof
    fix w assume "w \<in> set ?ws"
    with sets have w: "w \<in> set (input_works dev (Ptr R 0) ?bufs)" by (simp add: plan_def)
    from input_works_dst [OF w] have "ptr_region (dst (work w)) = R" by simp
    moreover from input_works_bound [OF w] len
    have "ptr_offset (dst (work w)) + unat (nbytes (work w)) \<le> length xs" by simp
    ultimately show "\<exists>d key ys. ptr_region (dst (work w)) = Staging d key
              \<and> region_bytes ?st1 (Staging d key) = Some ys
              \<and> ptr_offset (dst (work w)) + unat (nbytes (work w)) \<le> length ys"
      using rb by (auto simp: R_def)
  qed
  from run_works_succeeds [OF p1 p2] show ?thesis
    by (simp add: RunInputCopy_def RunAll_def)
qed

section \<open>The pools stay typed\<close>

text \<open>
  The typing of the pools holds of an executor with empty pools and is kept by every
  operation of the executor.
\<close>

lemma pools_ok_empty:
  "cpu_buffers st = Map.empty \<Longrightarrow> gpu_buffers st = Map.empty \<Longrightarrow> pools_ok st"
  by (simp add: pools_ok_def pool_of_def split: device_type_t.splits)

lemma pool_of_upd [simp]:
  "pool_of (st\<lparr>trace := tr\<rparr>) dev = pool_of st dev"
  "pool_of (st\<lparr>pipeline := pl\<rparr>) dev = pool_of st dev"
  by (simp_all add: pool_of_def split: device_type_t.splits)

lemma pools_ok_upd [simp]:
  "pools_ok (st\<lparr>trace := tr\<rparr>) = pools_ok st"
  "pools_ok (st\<lparr>thread_pool := q\<rparr>) = pools_ok st"
  "pools_ok (st\<lparr>pipeline := pl\<rparr>) = pools_ok st"
  by (simp_all add: pools_ok_def)

lemma pools_ok_store:
  assumes "pools_ok st" and "Dev b = dev" and "vec_data (buffer b) = Staging dev key"
    and "length (vec_elems (buffer b)) < 2 ^ 64"
  shows "pools_ok (pool_store st dev key b)"
  using assms by (auto simp: pools_ok_def pool_of_store split: if_splits)

lemma resized_length_lt:
  assumes "length (vec_elems (buffer b)) < 2 ^ 64"
  shows "length (vec_elems (buffer (resized b n))) < 2 ^ 64"
  using assms unat_size_t_bound [of n]
  by (simp add: resized_def resize_eq length_vec_resize)

lemma staging_buffer_pools_ok:
  assumes "pools_ok st" and "staging_buffer st dev key n = (r, st1)"
  shows "pools_ok st1"
proof -
  from assms(2) have "st1 = pool_store st dev key (resized (pool_entry st dev key) n)"
    by (simp add: staging_buffer_eq)
  moreover have "pools_ok (pool_store st dev key (resized (pool_entry st dev key) n))"
  proof (rule pools_ok_store [OF assms(1)])
    show "Dev (resized (pool_entry st dev key) n) = dev"
      using pool_entry_ok(1) [OF assms(1)] by (simp add: resized_simps)
    show "vec_data (buffer (resized (pool_entry st dev key) n)) = Staging dev key"
      using pool_entry_ok(2) [OF assms(1)] by (simp add: resized_simps)
    show "length (vec_elems (buffer (resized (pool_entry st dev key) n))) < 2 ^ 64"
      using pool_entry_ok(3) [OF assms(1)] by (rule resized_length_lt)
  qed
  ultimately show ?thesis by simp
qed

lemma ScheduleInputCopy_pools_ok:
  assumes "pools_ok st" and "ScheduleInputCopy st input = (r, st1)"
  shows "pools_ok st1"
proof (cases "buffers input = []")
  case True
  with assms show ?thesis by (simp add: ScheduleInputCopy_def)
next
  case False
  obtain r0 st0 where s: "staging_buffer st (if device (buffers input ! 0) = CPU then CPU else GPU)
                (name (meta input) @ ''_inp'') (total_size (buffers input)) = (r0, st0)"
    by (cases "staging_buffer st (if device (buffers input ! 0) = CPU then CPU else GPU)
                (name (meta input) @ ''_inp'') (total_size (buffers input))")
  from staging_buffer_pools_ok [OF assms(1) s] have "pools_ok st0" .
  with assms(2) False s show ?thesis
    by (cases r0) (auto simp: ScheduleInputCopy_def)
qed

lemma prepare_input_pools_ok:
  assumes "pools_ok st" and "prepare_input api st inp = (r, st1)"
  shows "pools_ok st1"
  using assms ScheduleInputCopy_pools_ok [OF assms(1), of inp]
  by (auto simp: prepare_input_def split: if_splits prod.splits sum.splits)

lemma prepare_inputs_pools_ok:
  assumes "pools_ok st" and "prepare_inputs api st inputs acc = (r, st1)"
  shows "pools_ok st1"
  using assms
proof (induction inputs arbitrary: st acc)
  case Nil
  then show ?case by simp
next
  case (Cons inp inputs)
  obtain r0 st0 where p: "prepare_input api st inp = (r0, st0)"
    by (cases "prepare_input api st inp")
  from prepare_input_pools_ok [OF Cons.prems(1) p] have ok0: "pools_ok st0" .
  show ?case
  proof (cases r0)
    case (Inl e)
    with Cons.prems(2) p ok0 show ?thesis by auto
  next
    case (Inr c)
    with Cons.prems(2) p have "prepare_inputs api st0 inputs (acc @ [c]) = (r, st1)" by simp
    from Cons.IH [OF ok0 this] show ?thesis .
  qed
qed

lemma set_region_bytes_pools_ok:
  assumes "pools_ok st" and "region_bytes st r = Some ys" and "length xs = length ys"
  shows "pools_ok (set_region_bytes st r xs)"
proof (cases r)
  case (Caller k)
  with assms(1) show ?thesis
    by (simp add: pools_ok_def pool_of_def set_region_bytes_def split: device_type_t.splits)
next
  case (Staging d key)
  have len: "length ys < 2 ^ 64"
    using assms(1,2) Staging
    by (cases d) (auto simp: pools_ok_def pool_of_def region_bytes_def split: device_type_t.splits)
  show ?thesis
    unfolding pools_ok_def
  proof (intro allI impI)
    fix dev k b
    assume "pool_of (set_region_bytes st r xs) dev k = Some b"
    then consider b0 where "r = Staging dev k" "pool_of st dev k = Some b0" "b = set_elems xs b0"
      | "pool_of st dev k = Some b"
      by (auto simp: pool_of_set_region_bytes split: if_splits)
    then show "Dev b = dev \<and> vec_data (buffer b) = Staging dev k
                 \<and> length (vec_elems (buffer b)) < 2 ^ 64"
    proof cases
      case 1
      with assms(1,3) len show ?thesis
        by (auto simp: pools_ok_def set_elems_simps)
    next
      case 2
      with assms(1) show ?thesis by (auto simp: pools_ok_def)
    qed
  qed
qed

lemma MemCopy_pools_ok:
  assumes "pools_ok st" and "MemCopy st t = Inr st1"
  shows "pools_ok st1"
  using assms
  by (auto simp: MemCopy_def write_bytes_def length_write_at
      intro!: set_region_bytes_pools_ok split: option.splits if_splits)

lemma run_works_pools_ok:
  assumes "pools_ok st" and "run_works st ws = (r, st1)"
  shows "pools_ok st1"
  using assms
proof (induction ws arbitrary: st)
  case Nil
  then show ?case by simp
next
  case (Cons w ws)
  let ?st = "st\<lparr>trace := trace st @ [EvMemCopy (work w)]\<rparr>"
  show ?case
  proof (cases "MemCopy ?st (work w)")
    case (Inl e)
    with Cons.prems show ?thesis by auto
  next
    case (Inr st2)
    with Cons.prems(2) have rest: "run_works st2 ws = (r, st1)" by simp
    from Cons.prems(1) have "pools_ok ?st" by simp
    from MemCopy_pools_ok [OF this Inr] have "pools_ok st2" .
    from Cons.IH [OF this rest] show ?thesis .
  qed
qed

lemma RunAll_pools_ok:
  assumes "pools_ok st" and "RunAll api st = (r, st1)"
  shows "pools_ok st1"
proof -
  from assms(1) have "pools_ok (st\<lparr>thread_pool := []\<rparr>)" by simp
  moreover from assms(2)
  have "run_works (st\<lparr>thread_pool := []\<rparr>) (schedule api (thread_pool st)) = (r, st1)"
    by (simp add: RunAll_def)
  ultimately show ?thesis by (rule run_works_pools_ok)
qed

lemma set_inputs_pools_ok:
  assumes "pools_ok st" and "set_inputs api st c_inputs = (r, st1)"
  shows "pools_ok st1"
  using assms
proof (induction c_inputs arbitrary: st)
  case Nil
  then show ?case by simp
next
  case (Cons c c_inputs)
  obtain x st0 where s: "pipeline_SetInput api st c = (x, st0)"
    by (cases "pipeline_SetInput api st c")
  with Cons.prems(1) have ok0: "pools_ok st0"
    by (auto simp: pipeline_SetInput_def split: prod.splits)
  show ?case
  proof (cases x)
    case (Some ex)
    with Cons.prems(2) s ok0 show ?thesis by auto
  next
    case None
    with Cons.prems(2) s have "set_inputs api st0 c_inputs = (r, st1)" by simp
    from Cons.IH [OF ok0 this] show ?thesis .
  qed
qed

lemma SetupInputs_pools_ok:
  assumes "pools_ok st" and "SetupInputs api st inputs = (r, st1)"
  shows "pools_ok st1"
proof -
  obtain r0 st0 where p: "prepare_inputs api st inputs [] = (r0, st0)"
    by (cases "prepare_inputs api st inputs []")
  from prepare_inputs_pools_ok [OF assms(1) p] have ok0: "pools_ok st0" .
  obtain r2 st2 where ra: "RunAll api st0 = (r2, st2)"
    by (cases "RunAll api st0")
  from RunAll_pools_ok [OF ok0 ra] have ok2: "pools_ok st2" .
  consider "st1 = st" | "st1 = st0" | "st1 = st2"
    | c_inputs where "set_inputs api st2 c_inputs = (r, st1)"
    using assms(2) p ra
    by (cases r0; cases r2) (auto simp: SetupInputs_def RunInputCopy_def split: if_splits)
  then show ?thesis
  proof cases
    case 4
    from set_inputs_pools_ok [OF ok2 this] show ?thesis .
  qed (simp_all add: assms(1) ok0 ok2)
qed

lemma Run_pools_ok:
  assumes "pools_ok st" and "Run api st inputs = (r, st1)"
  shows "pools_ok st1"
proof -
  obtain r0 st0 where s: "SetupInputs api st inputs = (r0, st0)"
    by (cases "SetupInputs api st inputs")
  from SetupInputs_pools_ok [OF assms(1) s] have ok0: "pools_ok st0" .
  obtain x st2 where ro: "run_and_output api st0 = (x, st2)"
    by (cases "run_and_output api st0")
  obtain pl2 tr2 where "st2 = st0\<lparr>pipeline := pl2, trace := tr2\<rparr>"
    using ro by (auto simp: run_and_output_def split: prod.splits option.splits)
  with ok0 have ok2: "pools_ok st2" by simp
  obtain y pl3 where rs: "Reset api (pipeline st2) = (y, pl3)"
    by (cases "Reset api (pipeline st2)")
  have "st1 = st0 \<or> st1 = st2 \<or> st1 = st2\<lparr>pipeline := pl3, trace := trace st2 @ [EvReset]\<rparr>"
  proof (cases r0)
    case (Inl e)
    with assms(2) s show ?thesis by (simp add: Run_def)
  next
    case (Inr u)
    show ?thesis
    proof (cases x)
      case None
      with assms(2) s ro Inr show ?thesis
        by (cases "output_infos api (pipeline st2)") (simp_all add: Run_def)
    next
      case (Some ex)
      with assms(2) s ro rs Inr show ?thesis
        by (cases ex; cases y) (simp_all add: Run_def)
    qed
  qed
  with ok0 ok2 show ?thesis by auto
qed

lemma put_output_pools_ok:
  assumes "pools_ok st" and "put_output api st i out = (r, st1)"
  shows "pools_ok st1"
proof (cases "length (buffers out) = 1")
  case True
  with assms show ?thesis
    by (auto simp: put_output_def pipeline_PutOutput_def split: prod.splits option.splits)
next
  case False
  obtain r0 st0 where s: "staging_buffer st
                (if GetOutputDevice api (pipeline st) i = CPU then CPU else GPU)
                (name (meta out) @ ''_out'') (total_size (buffers out)) = (r0, st0)"
    by (cases "staging_buffer st
                (if GetOutputDevice api (pipeline st) i = CPU then CPU else GPU)
                (name (meta out) @ ''_out'') (total_size (buffers out))")
  from staging_buffer_pools_ok [OF assms(1) s] have "pools_ok st0" .
  with assms(2) False s show ?thesis
    by (cases r0)
       (auto simp: put_output_def pipeline_PutOutput_def split: prod.splits option.splits)
qed

lemma put_output_slots_pools_ok:
  assumes "pools_ok st" and "put_output_slots api st i outputs = (r, st1)"
  shows "pools_ok st1"
  using assms
proof (induction outputs arbitrary: st i)
  case Nil
  then show ?case by simp
next
  case (Cons out outputs)
  obtain r0 st0 where p: "put_output api st i out = (r0, st0)"
    by (cases "put_output api st i out")
  from put_output_pools_ok [OF Cons.prems(1) p] have ok0: "pools_ok st0" .
  show ?case
  proof (cases r0)
    case (Inl e)
    with Cons.prems(2) p ok0 show ?thesis by auto
  next
    case (Inr u)
    with Cons.prems(2) p have "put_output_slots api st0 (Suc i) outputs = (r, st1)" by simp
    from Cons.IH [OF ok0 this] show ?thesis .
  qed
qed

lemma PutOutputs_pools_ok:
  assumes "pools_ok st" and "PutOutputs api st outputs = (r, st1)"
  shows "pools_ok st1"
proof -
  obtain r0 st0 where p: "put_output_slots api st 0 outputs = (r0, st0)"
    by (cases "put_output_slots api st 0 outputs")
  from put_output_slots_pools_ok [OF assms(1) p] have ok0: "pools_ok st0" .
  obtain x st2 where sy: "pipeline_SyncOutputStream api st0 = (x, st2)"
    by (cases "pipeline_SyncOutputStream api st0")
  then have "st2 = st0\<lparr>pipeline := pipeline st2, trace := trace st2\<rparr>"
    by (auto simp: pipeline_SyncOutputStream_def split: prod.splits)
  with ok0 have ok2: "pools_ok st2" by (metis pools_ok_upd(1,3))
  consider "st1 = st0" | "st1 = st2" | "RunAll api st2 = (r, st1)"
    using assms(2) p sy by (cases r0; cases x) (simp_all add: PutOutputs_def)
  then show ?thesis
  proof cases
    case 3
    from RunAll_pools_ok [OF ok2 this] show ?thesis .
  qed (simp_all add: ok0 ok2)
qed

section \<open>The descriptors that reach the pipeline\<close>

text \<open>
  What \<^verbatim>\<open>SetupInputs\<close> as a whole does with the descriptors: when it returns, the log has
  grown by the copies that ran and then by one \<^verbatim>\<open>SetInput\<close> per input, in the order of the
  inputs, and the \<^verbatim>\<open>SetInput\<close> of an input that qualifies for the zero-copy path carries
  the caller's descriptor itself. When every input qualifies (and the queue was empty), no
  copy runs at all.
\<close>

lemma prepare_inputs_length:
  assumes "prepare_inputs api st inputs acc = (Inr cs, st1)"
  shows "length cs = length acc + length inputs \<and> take (length acc) cs = acc"
  using assms
proof (induction inputs arbitrary: st acc)
  case Nil
  then show ?case by simp
next
  case (Cons inp inputs)
  obtain r0 st0 where p: "prepare_input api st inp = (r0, st0)"
    by (cases "prepare_input api st inp")
  with Cons.prems obtain c where c: "r0 = Inr c"
    and rest: "prepare_inputs api st0 inputs (acc @ [c]) = (Inr cs, st1)"
    by (cases r0) auto
  from Cons.IH [OF rest] have "length cs = length (acc @ [c]) + length inputs"
    and "take (length (acc @ [c])) cs = acc @ [c]" by simp_all
  then show ?case
    by (simp add: take_Suc_conv_app_nth)
qed

lemma prepare_inputs_zero_copy:
  assumes "prepare_inputs api st inputs acc = (Inr cs, st1)"
    and "i < length inputs"
    and "IsNoCopy st (inputs ! i)"
  shows "cs ! (length acc + i) = inputs ! i"
  using assms
proof (induction inputs arbitrary: st acc i)
  case Nil
  then show ?case by simp
next
  case (Cons inp inputs)
  obtain r0 st0 where p: "prepare_input api st inp = (r0, st0)"
    by (cases "prepare_input api st inp")
  with Cons.prems(1) obtain c where c: "r0 = Inr c"
    and rest: "prepare_inputs api st0 inputs (acc @ [c]) = (Inr cs, st1)"
    by (cases r0) auto
  have pl: "pipeline st0 = pipeline st" using prepare_input_fields(1) [OF p] .
  show ?case
  proof (cases i)
    case 0
    with Cons.prems(3) p c have "c = inp"
      by (auto simp: prepare_input_def split: if_splits)
    moreover from prepare_inputs_length [OF rest] have "take (length (acc @ [c])) cs = acc @ [c]"
      by simp
    then have "cs ! length acc = c"
      by (metis length_append_singleton lessI nth_append_length nth_take)
    ultimately show ?thesis using 0 by simp
  next
    case (Suc j)
    with Cons.prems(2,3) have j: "j < length inputs" and "IsNoCopy st (inputs ! j)" by simp_all
    with pl have "IsNoCopy st0 (inputs ! j)" by (simp add: IsNoCopy_def)
    from Cons.IH [OF rest j this] Suc show ?thesis by simp
  qed
qed

lemma prepare_inputs_all_zero_copy:
  assumes "prepare_inputs api st inputs acc = (Inr cs, st1)"
    and "\<forall>inp \<in> set inputs. IsNoCopy st inp"
  shows "st1 = st"
  using assms
proof (induction inputs arbitrary: acc)
  case Nil
  then show ?case by simp
next
  case (Cons inp inputs)
  from Cons.prems(2) have "IsNoCopy st inp" by simp
  with Cons.prems(1) obtain c where "prepare_inputs api st inputs (acc @ [c]) = (Inr cs, st1)"
    by (auto simp: prepare_input_def split: if_splits)
  from Cons.IH [OF this] Cons.prems(2) show ?case by simp
qed

lemma set_inputs_trace:
  assumes "set_inputs api st cs = (Inr (), st1)"
  shows "trace st1 = trace st @ map EvSetInput cs"
  using assms
proof (induction cs arbitrary: st)
  case Nil
  then show ?case by simp
next
  case (Cons c cs)
  obtain x st0 where s: "pipeline_SetInput api st c = (x, st0)"
    by (cases "pipeline_SetInput api st c")
  then have t0: "trace st0 = trace st @ [EvSetInput c]"
    by (auto simp: pipeline_SetInput_def split: prod.splits)
  from Cons.prems s have "set_inputs api st0 cs = (Inr (), st1)"
    by (cases x) auto
  from Cons.IH [OF this] t0 show ?case by simp
qed

lemma SetupInputs_passes_zero_copy_inputs:
  assumes "SetupInputs api st inputs = (Inr (), st1)"
  shows "\<exists>cs copies.
           length cs = length inputs
         \<and> trace st1 = trace st @ copies @ map EvSetInput cs
         \<and> list_all is_mem_copy copies
         \<and> (\<forall>i < length inputs. IsNoCopy st (inputs ! i) \<longrightarrow> cs ! i = inputs ! i)
         \<and> ((\<forall>inp \<in> set inputs. IsNoCopy st inp) \<and> thread_pool st = []
              \<and> schedule api [] = [] \<longrightarrow> copies = [] \<and> cs = inputs)"
proof -
  from assms have ne: "inputs \<noteq> []" by (auto simp: SetupInputs_def split: if_splits)
  obtain r0 st0 where p: "prepare_inputs api st inputs [] = (r0, st0)"
    by (cases "prepare_inputs api st inputs []")
  with assms ne obtain cs where r0: "r0 = Inr cs"
    by (cases r0) (auto simp: SetupInputs_def split: if_splits)
  obtain r2 st2 where ra: "RunAll api st0 = (r2, st2)"
    by (cases "RunAll api st0")
  with assms ne p r0 have r2: "r2 = Inr ()"
    by (cases r2) (auto simp: SetupInputs_def RunInputCopy_def split: if_splits)
  from assms ne p r0 ra r2 have s: "set_inputs api st2 cs = (Inr (), st1)"
    by (auto simp: SetupInputs_def RunInputCopy_def split: if_splits)
  from p r0 have p': "prepare_inputs api st inputs [] = (Inr cs, st0)" by simp
  let ?copies = "map (\<lambda>w. EvMemCopy (work w)) (schedule api (thread_pool st0))"
  from RunAll_effect [OF ra] r2 have t2: "trace st2 = trace st0 @ ?copies" by auto
  have t0: "trace st0 = trace st" using prepare_inputs_fields [OF p'] by simp
  have t1: "trace st1 = trace st @ ?copies @ map EvSetInput cs"
    using set_inputs_trace [OF s] t2 t0 by simp
  have len: "length cs = length inputs" using prepare_inputs_length [OF p'] by simp
  have zc: "\<forall>i < length inputs. IsNoCopy st (inputs ! i) \<longrightarrow> cs ! i = inputs ! i"
    using prepare_inputs_zero_copy [OF p'] by simp
  have all: "(\<forall>inp \<in> set inputs. IsNoCopy st inp) \<and> thread_pool st = []
              \<and> schedule api [] = [] \<longrightarrow> ?copies = [] \<and> cs = inputs"
  proof (intro impI, elim conjE)
    assume a: "\<forall>inp \<in> set inputs. IsNoCopy st inp" and q: "thread_pool st = []"
      and e: "schedule api [] = []"
    from prepare_inputs_all_zero_copy [OF p' a] q e have "?copies = []" by simp
    moreover have "cs = inputs"
    proof (rule nth_equalityI)
      show "length cs = length inputs" by (rule len)
    next
      fix i assume "i < length cs"
      with len a zc show "cs ! i = inputs ! i" by simp
    qed
    ultimately show "?copies = [] \<and> cs = inputs" by simp
  qed
  have c: "list_all is_mem_copy ?copies" by (simp add: list_all_iff)
  from len t1 c zc all show ?thesis by blast
qed

section \<open>Several staged inputs in one invocation\<close>

text \<open>
  A run of the queue, restricted to one staging buffer. When the copies that write the
  buffer are, as a multiset, the copies planned for a list of fragments, the run leaves
  the concatenation of the fragments at the start of the buffer, whatever else the queue
  copies into other staging buffers and in whatever order.
\<close>

lemma staged_region_after_run:
  assumes run: "run_works st0 ws = (Inr (), st2)"
    and stg: "\<forall>w \<in> set ws. \<exists>d key. ptr_region (dst (work w)) = Staging d key"
    and src: "\<forall>f \<in> set bufs. \<exists>k i. data f = Ptr (Caller k) i"
    and rb: "region_bytes st0 R = Some xs"
    and ms: "mset (filter (\<lambda>w. ptr_region (dst (work w)) = R) ws)
               = mset (input_works dev (Ptr R 0) bufs)"
    and len: "sum_list (map (\<lambda>f. unat (size_d f)) bufs) \<le> length xs"
  shows "region_bytes st2 R
           = Some (concat (map (frag_bytes st0) bufs)
                   @ drop (sum_list (map (\<lambda>f. unat (size_d f)) bufs)) xs)"
    and "caller_mem st2 = caller_mem st0"
    and "length (concat (map (frag_bytes st0) bufs)) = sum_list (map (\<lambda>f. unat (size_d f)) bufs)"
proof -
  let ?toR = "\<lambda>w. ptr_region (dst (work w)) = R"
  let ?plan = "input_works dev (Ptr R 0) bufs"
  let ?sum = "sum_list (map (\<lambda>f. unat (size_d f)) bufs)"
  have sets: "set (filter ?toR ws) = set ?plan" using ms by (rule mset_eq_setD)
  have h3: "\<forall>w \<in> set ws. ?toR w \<longrightarrow> (\<exists>k i. src (work w) = Ptr (Caller k) i)"
  proof (intro ballI impI)
    fix w assume "w \<in> set ws" "?toR w"
    then have "w \<in> set ?plan" using sets by auto
    from input_works_src [OF this] src show "\<exists>k i. src (work w) = Ptr (Caller k) i"
      by fastforce
  qed
  from run_works_region [OF run stg h3 rb] have
    c1: "caller_mem st2 = caller_mem st0"
    and c2: "region_bytes st2 R = Some (fold (copy_write st0) (filter ?toR ws) xs)"
    and c3: "\<forall>w \<in> set ws. ?toR w \<longrightarrow> length (task_bytes st0 (work w)) = unat (nbytes (work w))"
    by simp_all
  have fo: "fold (copy_write st0) ?plan = fold (copy_write st0) (filter ?toR ws)"
    by (rule fold_multiset_equiv [OF _ ms [symmetric]]) (auto intro: copy_write_commute)
  have lf: "\<forall>f \<in> set bufs. length (frag_bytes st0 f) = unat (size_d f)"
  proof
    fix f assume "f \<in> set bufs"
    from input_works_of_frag [OF this, of dev "Ptr R 0"] obtain w where
      w: "w \<in> set ?plan" "src (work w) = data f" "nbytes (work w) = size_d f"
      by auto
    with sets have "w \<in> set ws" "?toR w" by auto
    with c3 have "length (task_bytes st0 (work w)) = unat (nbytes (work w))" by auto
    with w show "length (frag_bytes st0 f) = unat (size_d f)"
      by (simp add: task_bytes_def frag_bytes_def)
  qed
  have "fold (copy_write st0) ?plan xs
        = take 0 xs @ concat (map (frag_bytes st0) bufs) @ drop (0 + ?sum) xs"
    using lf len by (intro fold_input_works) simp_all
  with c2 fo show "region_bytes st2 R = Some (concat (map (frag_bytes st0) bufs) @ drop ?sum xs)"
    by simp
  show "caller_mem st2 = caller_mem st0" by (rule c1)
  show "length (concat (map (frag_bytes st0) bufs)) = ?sum"
    using lf by (simp add: length_concat comp_def cong: map_cong)
qed

lemma region_bytes_pool_store_other:
  "R \<noteq> Staging dev key \<Longrightarrow> region_bytes (pool_store st dev key b) R = region_bytes st R"
  by (cases dev; cases R)
     (auto simp: region_bytes_def pool_store_def split: device_type_t.splits)

text \<open>
  What \<^verbatim>\<open>ScheduleInputCopy\<close> does to the executor: it returns a descriptor of one fragment at
  the start of the staging buffer of the input, appends the planned copies to the queue,
  and touches no other staging buffer and no caller memory.
\<close>

lemma ScheduleInputCopy_effect:
  assumes ok: "pools_ok st" and ne: "buffers input \<noteq> []"
    and nowrap: "inp_bytes input < 2 ^ 64"
    and sc: "ScheduleInputCopy st input = (r, st1)"
  shows "\<exists>d. r = Inr \<lparr>meta = meta input, buffers = [d]\<rparr>
            \<and> data d = Ptr (inp_region input) 0
            \<and> device d = inp_dev input
            \<and> size_d d = sum_list (map size_d (buffers input))
            \<and> unat (size_d d) = inp_bytes input"
    and "thread_pool st1 = thread_pool st @ inp_works input"
    and "caller_mem st1 = caller_mem st"
    and "\<exists>xs. region_bytes st1 (inp_region input) = Some xs \<and> inp_bytes input \<le> length xs"
    and "\<forall>R. R \<noteq> inp_region input \<longrightarrow> region_bytes st1 R = region_bytes st R"
proof -
  let ?bufs = "buffers input"
  define dev where "dev = inp_dev input"
  define key where "key = name (meta input) @ ''_inp''"
  define R where "R = Staging dev key"
  define b where "b = resized (pool_entry st dev key) (total_size ?bufs)"
  define st0 where "st0 = pool_store st dev key b"
  have hd0: "?bufs ! 0 = hd ?bufs" using ne by (simp add: hd_conv_nth)
  have RR: "inp_region input = R" by (simp add: inp_region_def R_def dev_def key_def)
  have Devb: "Dev b = dev" and datab: "vec_data (buffer b) = R"
    using pool_entry_ok(1,2) [OF ok, of dev key] by (simp_all add: b_def resized_simps R_def)
  have eq: "ScheduleInputCopy st input =
      (Inr \<lparr>meta = meta input, buffers = [GetDescr b]\<rparr>,
       st0\<lparr>thread_pool := thread_pool st0 @ inp_works input\<rparr>)"
    using ScheduleInputCopy_eq [OF ne, of st] Devb datab
    by (simp add: Let_def dev_def inp_dev_def hd0 key_def b_def st0_def inp_works_def
        inp_region_def R_def)
  with sc have r: "r = Inr \<lparr>meta = meta input, buffers = [GetDescr b]\<rparr>"
    and st1: "st1 = st0\<lparr>thread_pool := thread_pool st0 @ inp_works input\<rparr>"
    by simp_all
  have tot: "unat (total_size ?bufs) = inp_bytes input"
    using unat_sum_sizes [of ?bufs] nowrap by (simp add: total_size_sum inp_bytes_def)
  have fb: "filled b = total_size ?bufs" by (simp add: b_def resized_simps)
  show "\<exists>d. r = Inr \<lparr>meta = meta input, buffers = [d]\<rparr>
            \<and> data d = Ptr (inp_region input) 0
            \<and> device d = inp_dev input
            \<and> size_d d = sum_list (map size_d (buffers input))
            \<and> unat (size_d d) = inp_bytes input"
    using r tot
    by (intro exI [of _ "GetDescr b"])
       (simp add: GetDescr_def Devb datab fb RR dev_def total_size_sum)
  show "thread_pool st1 = thread_pool st @ inp_works input"
    by (simp add: st1 st0_def pool_store_simps)
  show "caller_mem st1 = caller_mem st"
    by (simp add: st1 st0_def pool_store_simps)
  have "inp_bytes input \<le> length (vec_elems (buffer b))"
    using resized_length [OF pool_entry_ok(3) [OF ok, of dev key], of "total_size ?bufs"] tot
    by (simp add: b_def)
  then show "\<exists>xs. region_bytes st1 (inp_region input) = Some xs \<and> inp_bytes input \<le> length xs"
    by (simp add: st1 st0_def RR R_def region_bytes_pool_store)
  show "\<forall>R. R \<noteq> inp_region input \<longrightarrow> region_bytes st1 R = region_bytes st R"
    by (simp add: st1 st0_def RR R_def region_bytes_pool_store_other)
qed

lemma IsNoCopy_pipeline: "pipeline st' = pipeline st \<Longrightarrow> IsNoCopy st' = IsNoCopy st"
  by (simp add: IsNoCopy_def fun_eq_iff)

lemma prepare_input_no_copy:
  assumes "IsNoCopy st inp" and "prepare_input api st inp = (Inr c, st1)"
  shows "c = inp" and "st1 = st"
  using assms by (auto simp: prepare_input_def split: if_splits)

lemma prepare_input_staged:
  assumes "\<not> IsNoCopy st inp" and "prepare_input api st inp = (Inr c, st1)"
  shows "buffers inp \<noteq> []" and "ScheduleInputCopy st inp = (Inr c, st1)"
proof -
  obtain r0 st0 where s: "ScheduleInputCopy st inp = (r0, st0)"
    by (cases "ScheduleInputCopy st inp")
  with assms show "ScheduleInputCopy st inp = (Inr c, st1)"
    by (cases r0) (auto simp: prepare_input_def split: if_splits)
  then show "buffers inp \<noteq> []"
    by (auto simp: ScheduleInputCopy_def split: if_splits)
qed

text \<open>
  The first loop of \<^verbatim>\<open>SetupInputs\<close> over all the inputs: the queue holds the planned copies
  of the staged inputs, each staged input has its own staging buffer of sufficient
  length, and the descriptor collected for it describes the start of that buffer.
\<close>

lemma prepare_inputs_effect:
  assumes "pools_ok st"
    and "prepare_inputs api st inputs acc = (Inr cs, st0)"
    and "distinct (map inp_region (filter (\<lambda>i. \<not> IsNoCopy st i) inputs))"
    and "\<forall>inp \<in> set inputs. inp_bytes inp < 2 ^ 64"
  shows "thread_pool st0
           = thread_pool st @ concat (map inp_works (filter (\<lambda>i. \<not> IsNoCopy st i) inputs))
       \<and> caller_mem st0 = caller_mem st
       \<and> (\<forall>R. R \<notin> inp_region ` set (filter (\<lambda>i. \<not> IsNoCopy st i) inputs)
              \<longrightarrow> region_bytes st0 R = region_bytes st R)
       \<and> (\<forall>inp \<in> set (filter (\<lambda>i. \<not> IsNoCopy st i) inputs).
              buffers inp \<noteq> []
            \<and> (\<exists>xs. region_bytes st0 (inp_region inp) = Some xs \<and> inp_bytes inp \<le> length xs))
       \<and> (\<forall>i < length inputs. \<not> IsNoCopy st (inputs ! i) \<longrightarrow>
              (\<exists>d. cs ! (length acc + i) = \<lparr>meta = meta (inputs ! i), buffers = [d]\<rparr>
                  \<and> data d = Ptr (inp_region (inputs ! i)) 0
                  \<and> unat (size_d d) = inp_bytes (inputs ! i)))"
  using assms
proof (induction inputs arbitrary: st acc)
  case Nil
  then show ?case by simp
next
  case (Cons inp rest)
  let ?staged = "\<lambda>st. filter (\<lambda>i. \<not> IsNoCopy st i)"
  obtain r1 st' where p: "prepare_input api st inp = (r1, st')"
    by (cases "prepare_input api st inp")
  with Cons.prems(2) obtain c where c: "prepare_input api st inp = (Inr c, st')"
    and rest: "prepare_inputs api st' rest (acc @ [c]) = (Inr cs, st0)"
    by (cases r1) auto
  have pl: "pipeline st' = pipeline st" using prepare_input_fields(1) [OF c] .
  have nc: "IsNoCopy st' = IsNoCopy st" using pl by (rule IsNoCopy_pipeline)
  have ok': "pools_ok st'" using prepare_input_pools_ok [OF Cons.prems(1) c] .
  have d': "distinct (map inp_region (?staged st' rest))"
    using Cons.prems(3) by (auto simp: nc split: if_splits)
  have w': "\<forall>inp \<in> set rest. inp_bytes inp < 2 ^ 64" using Cons.prems(4) by simp
  from Cons.IH [OF ok' rest d' w'] have
    q: "thread_pool st0 = thread_pool st' @ concat (map inp_works (?staged st rest))"
    and cm: "caller_mem st0 = caller_mem st'"
    and fr: "\<forall>R. R \<notin> inp_region ` set (?staged st rest) \<longrightarrow> region_bytes st0 R = region_bytes st' R"
    and rg: "\<forall>inp \<in> set (?staged st rest). buffers inp \<noteq> []
            \<and> (\<exists>xs. region_bytes st0 (inp_region inp) = Some xs \<and> inp_bytes inp \<le> length xs)"
    and ix: "\<forall>i < length rest. \<not> IsNoCopy st (rest ! i) \<longrightarrow>
              (\<exists>d. cs ! (length (acc @ [c]) + i) = \<lparr>meta = meta (rest ! i), buffers = [d]\<rparr>
                  \<and> data d = Ptr (inp_region (rest ! i)) 0
                  \<and> unat (size_d d) = inp_bytes (rest ! i))"
    by (simp_all add: nc)
  have c0: "cs ! length acc = c"
  proof -
    from prepare_inputs_length [OF rest] have "take (length (acc @ [c])) cs = acc @ [c]" by simp
    then show ?thesis by (metis length_append_singleton lessI nth_append_length nth_take)
  qed
  have ix': "\<forall>i < length rest. \<not> IsNoCopy st (rest ! i) \<longrightarrow>
              (\<exists>d. cs ! (length acc + Suc i) = \<lparr>meta = meta (rest ! i), buffers = [d]\<rparr>
                  \<and> data d = Ptr (inp_region (rest ! i)) 0
                  \<and> unat (size_d d) = inp_bytes (rest ! i))"
    using ix by simp
  show ?case
  proof (cases "IsNoCopy st inp")
    case True
    from prepare_input_no_copy [OF True c] have "st' = st" by simp
    with True q cm fr rg have
      "thread_pool st0 = thread_pool st @ concat (map inp_works (?staged st (inp # rest)))"
      "caller_mem st0 = caller_mem st"
      "\<forall>R. R \<notin> inp_region ` set (?staged st (inp # rest)) \<longrightarrow> region_bytes st0 R = region_bytes st R"
      "\<forall>inp \<in> set (?staged st (inp # rest)). buffers inp \<noteq> []
            \<and> (\<exists>xs. region_bytes st0 (inp_region inp) = Some xs \<and> inp_bytes inp \<le> length xs)"
      by simp_all
    moreover have "\<forall>i < length (inp # rest). \<not> IsNoCopy st ((inp # rest) ! i) \<longrightarrow>
              (\<exists>d. cs ! (length acc + i) = \<lparr>meta = meta ((inp # rest) ! i), buffers = [d]\<rparr>
                  \<and> data d = Ptr (inp_region ((inp # rest) ! i)) 0
                  \<and> unat (size_d d) = inp_bytes ((inp # rest) ! i))"
    proof (intro allI impI)
      fix i assume "i < length (inp # rest)" "\<not> IsNoCopy st ((inp # rest) ! i)"
      with True ix' show "\<exists>d. cs ! (length acc + i) = \<lparr>meta = meta ((inp # rest) ! i), buffers = [d]\<rparr>
                  \<and> data d = Ptr (inp_region ((inp # rest) ! i)) 0
                  \<and> unat (size_d d) = inp_bytes ((inp # rest) ! i)"
        by (cases i) auto
    qed
    ultimately show ?thesis by blast
  next
    case False
    from prepare_input_staged [OF False c] have ne: "buffers inp \<noteq> []"
      and sc: "ScheduleInputCopy st inp = (Inr c, st')" by simp_all
    have nw: "inp_bytes inp < 2 ^ 64" using Cons.prems(4) by simp
    from ScheduleInputCopy_effect [OF Cons.prems(1) ne nw sc] obtain d xs where
      cd: "c = \<lparr>meta = meta inp, buffers = [d]\<rparr>" "data d = Ptr (inp_region inp) 0"
          "unat (size_d d) = inp_bytes inp"
      and q1: "thread_pool st' = thread_pool st @ inp_works inp"
      and cm1: "caller_mem st' = caller_mem st"
      and r1: "region_bytes st' (inp_region inp) = Some xs" "inp_bytes inp \<le> length xs"
      and f1: "\<forall>R. R \<noteq> inp_region inp \<longrightarrow> region_bytes st' R = region_bytes st R"
      by auto
    have notin: "inp_region inp \<notin> inp_region ` set (?staged st rest)"
      using Cons.prems(3) False by auto
    have a: "thread_pool st0 = thread_pool st @ concat (map inp_works (?staged st (inp # rest)))"
      using q q1 False by simp
    have b: "caller_mem st0 = caller_mem st" using cm cm1 by simp
    have cfr: "\<forall>R. R \<notin> inp_region ` set (?staged st (inp # rest)) \<longrightarrow> region_bytes st0 R = region_bytes st R"
      using fr f1 False by auto
    have drg: "\<forall>i \<in> set (?staged st (inp # rest)). buffers i \<noteq> []
            \<and> (\<exists>xs. region_bytes st0 (inp_region i) = Some xs \<and> inp_bytes i \<le> length xs)"
    proof
      fix i assume "i \<in> set (?staged st (inp # rest))"
      with False have "i = inp \<or> i \<in> set (?staged st rest)" by auto
      then show "buffers i \<noteq> []
            \<and> (\<exists>xs. region_bytes st0 (inp_region i) = Some xs \<and> inp_bytes i \<le> length xs)"
      proof
        assume "i = inp"
        with fr notin r1 ne show ?thesis by auto
      next
        assume "i \<in> set (?staged st rest)"
        with rg show ?thesis by blast
      qed
    qed
    have e: "\<forall>i < length (inp # rest). \<not> IsNoCopy st ((inp # rest) ! i) \<longrightarrow>
              (\<exists>d. cs ! (length acc + i) = \<lparr>meta = meta ((inp # rest) ! i), buffers = [d]\<rparr>
                  \<and> data d = Ptr (inp_region ((inp # rest) ! i)) 0
                  \<and> unat (size_d d) = inp_bytes ((inp # rest) ! i))"
    proof (intro allI impI)
      fix i assume "i < length (inp # rest)" "\<not> IsNoCopy st ((inp # rest) ! i)"
      then show "\<exists>d. cs ! (length acc + i) = \<lparr>meta = meta ((inp # rest) ! i), buffers = [d]\<rparr>
                  \<and> data d = Ptr (inp_region ((inp # rest) ! i)) 0
                  \<and> unat (size_d d) = inp_bytes ((inp # rest) ! i)"
        using ix' c0 cd by (cases i) auto
    qed
    from a b cfr drg e show ?thesis by blast
  qed
qed

lemma inp_works_region:
  "w \<in> set (inp_works i) \<Longrightarrow> ptr_region (dst (work w)) = inp_region i"
  using input_works_dst [of w "inp_dev i" "Ptr (inp_region i) 0" "buffers i"]
  by (simp add: inp_works_def)

lemma filter_concat_inp_works:
  assumes "distinct (map inp_region xs)" and "j \<in> set xs"
  shows "filter (\<lambda>w. ptr_region (dst (work w)) = inp_region j) (concat (map inp_works xs))
         = inp_works j"
  using assms
proof (induction xs)
  case Nil
  then show ?case by simp
next
  case (Cons x xs)
  let ?P = "\<lambda>w. ptr_region (dst (work w)) = inp_region j"
  have own: "filter ?P (inp_works j) = inp_works j"
    by (simp add: inp_works_region)
  have other: "filter ?P (inp_works i) = []" if "inp_region i \<noteq> inp_region j" for i
    using that by (auto simp: filter_empty_conv dest: inp_works_region)
  show ?case
  proof (cases "j \<in> set xs")
    case True
    with Cons.prems(1) have "inp_region x \<noteq> inp_region j" by auto
    with other Cons.IH True Cons.prems(1) show ?thesis by simp
  next
    case False
    with Cons.prems(2) have xj: "x = j" by simp
    have "filter ?P (concat (map inp_works xs)) = []"
    proof -
      have "\<forall>i \<in> set xs. inp_region i \<noteq> inp_region j"
        using Cons.prems(1) xj by (auto simp: image_iff)
      then show ?thesis
        by (auto simp: filter_empty_conv dest: inp_works_region)
    qed
    with own xj show ?thesis by simp
  qed
qed

lemma distinct_regions_of_names:
  assumes "distinct (map (\<lambda>inp. name (meta inp)) inputs)"
  shows "distinct (map inp_region (filter P inputs))"
proof -
  have "inj_on (\<lambda>inp. name (meta inp)) (set inputs)" and d: "distinct inputs"
    using assms by (simp_all add: distinct_map)
  then have "inj_on inp_region (set inputs)"
    by (auto simp: inj_on_def inp_region_def)
  then have "inj_on inp_region (set (filter P inputs))"
    by (rule inj_on_subset) auto
  with d show ?thesis by (simp add: distinct_map)
qed

lemma region_bytes_pipeline_upd [simp]:
  "region_bytes (st\<lparr>pipeline := pl\<rparr>) r = region_bytes st r"
  by (simp add: region_bytes_def split: region.splits device_type_t.splits)

lemma set_inputs_region_bytes:
  assumes "set_inputs api st cs = (r, st1)"
  shows "region_bytes st1 R = region_bytes st R"
  using assms
proof (induction cs arbitrary: st)
  case Nil
  then show ?case by simp
next
  case (Cons c cs)
  obtain x st0 where s: "pipeline_SetInput api st c = (x, st0)"
    by (cases "pipeline_SetInput api st c")
  then have r0: "region_bytes st0 R = region_bytes st R"
    by (auto simp: pipeline_SetInput_def split: prod.splits)
  show ?case
  proof (cases x)
    case (Some ex)
    with Cons.prems s r0 show ?thesis by auto
  next
    case None
    with Cons.prems s have "set_inputs api st0 cs = (r, st1)" by simp
    from Cons.IH [OF this] r0 show ?thesis by simp
  qed
qed

text \<open>
  The input path as a whole. Let \<^verbatim>\<open>SetupInputs\<close> return, for inputs with distinct names
  whose fragments lie in caller memory. Then for every input that does not qualify for
  the zero-copy path, the descriptor given to the pipeline's \<^verbatim>\<open>SetInput\<close> has one
  fragment, and at that time the bytes it describes are the bytes of the input's
  fragments, concatenated in their order, whatever the order in which the workers ran
  the copies of all the inputs.
\<close>

lemma SetupInputs_staged_inputs_concatenated:
  assumes ok: "pools_ok st" and q: "thread_pool st = []"
    and perm: "\<forall>q. mset (schedule api q) = mset q"
    and su: "SetupInputs api st inputs = (Inr (), st1)"
    and dn: "distinct (map (\<lambda>inp. name (meta inp)) inputs)"
    and cl: "\<forall>inp \<in> set inputs. \<forall>f \<in> set (buffers inp). \<exists>k i. data f = Ptr (Caller k) i"
    and nw: "\<forall>inp \<in> set inputs. inp_bytes inp < 2 ^ 64"
    and j: "j < length inputs" and stg: "\<not> IsNoCopy st (inputs ! j)"
  shows "\<exists>cs copies d.
           trace st1 = trace st @ copies @ map EvSetInput cs
         \<and> length cs = length inputs
         \<and> list_all is_mem_copy copies
         \<and> cs ! j = \<lparr>meta = meta (inputs ! j), buffers = [d]\<rparr>
         \<and> read_bytes st1 (data d) (unat (size_d d))
             = Some (concat (map (frag_bytes st) (buffers (inputs ! j))))"
proof -
  let ?inp = "inputs ! j"
  let ?R = "inp_region ?inp"
  let ?bufs = "buffers ?inp"
  let ?staged = "filter (\<lambda>i. \<not> IsNoCopy st i) inputs"
  from su have ne: "inputs \<noteq> []" by (auto simp: SetupInputs_def split: if_splits)
  obtain r0 st0 where p: "prepare_inputs api st inputs [] = (r0, st0)"
    by (cases "prepare_inputs api st inputs []")
  with su ne obtain cs where r0: "r0 = Inr cs"
    by (cases r0) (auto simp: SetupInputs_def split: if_splits)
  obtain r2 st2 where ra: "RunAll api st0 = (r2, st2)"
    by (cases "RunAll api st0")
  with su ne p r0 have r2: "r2 = Inr ()"
    by (cases r2) (auto simp: SetupInputs_def RunInputCopy_def split: if_splits)
  from su ne p r0 ra r2 have s: "set_inputs api st2 cs = (Inr (), st1)"
    by (auto simp: SetupInputs_def RunInputCopy_def split: if_splits)
  from p r0 have p': "prepare_inputs api st inputs [] = (Inr cs, st0)" by simp
  have dr: "distinct (map inp_region ?staged)" using dn by (rule distinct_regions_of_names)
  from prepare_inputs_effect [OF ok p' dr nw] have
    q0: "thread_pool st0 = concat (map inp_works ?staged)"
    and cm0: "caller_mem st0 = caller_mem st"
    and rg: "\<forall>inp \<in> set ?staged. buffers inp \<noteq> []
            \<and> (\<exists>xs. region_bytes st0 (inp_region inp) = Some xs \<and> inp_bytes inp \<le> length xs)"
    and ix: "\<forall>i < length inputs. \<not> IsNoCopy st (inputs ! i) \<longrightarrow>
              (\<exists>d. cs ! i = \<lparr>meta = meta (inputs ! i), buffers = [d]\<rparr>
                  \<and> data d = Ptr (inp_region (inputs ! i)) 0
                  \<and> unat (size_d d) = inp_bytes (inputs ! i))"
    using q by simp_all
  have jin: "?inp \<in> set ?staged" using j stg by simp
  with rg obtain xs where
    rb: "region_bytes st0 ?R = Some xs" and len: "inp_bytes ?inp \<le> length xs"
    by blast
  from ix j stg obtain d where
    d: "cs ! j = \<lparr>meta = meta ?inp, buffers = [d]\<rparr>" "data d = Ptr ?R 0"
       "unat (size_d d) = inp_bytes ?inp"
    by blast
  let ?st0 = "st0\<lparr>thread_pool := []\<rparr>"
  let ?ws = "schedule api (thread_pool st0)"
  let ?toR = "\<lambda>w. ptr_region (dst (work w)) = ?R"
  have run: "run_works ?st0 ?ws = (Inr (), st2)"
    using ra r2 by (simp add: RunAll_def)
  have sets: "set ?ws = set (thread_pool st0)"
    using perm by (metis mset_eq_setD)
  have h1: "\<forall>w \<in> set ?ws. \<exists>d key. ptr_region (dst (work w)) = Staging d key"
  proof
    fix w assume "w \<in> set ?ws"
    with sets q0 obtain i where "w \<in> set (inp_works i)" by auto
    from inp_works_region [OF this] show "\<exists>d key. ptr_region (dst (work w)) = Staging d key"
      by (simp add: inp_region_def)
  qed
  have h2: "\<forall>f \<in> set ?bufs. \<exists>k i. data f = Ptr (Caller k) i"
    using cl j nth_mem [of j inputs] by blast
  have h3: "region_bytes ?st0 ?R = Some xs" using rb by simp
  have "mset (filter ?toR ?ws) = mset (filter ?toR (thread_pool st0))"
    using perm by (simp only: mset_filter)
  also have "filter ?toR (thread_pool st0) = inp_works ?inp"
    unfolding q0 using dr jin by (rule filter_concat_inp_works)
  finally have h4: "mset (filter ?toR ?ws) = mset (input_works (inp_dev ?inp) (Ptr ?R 0) ?bufs)"
    by (simp add: inp_works_def)
  have h5: "sum_list (map (\<lambda>f. unat (size_d f)) ?bufs) \<le> length xs"
    using len by (simp add: inp_bytes_def)
  from staged_region_after_run [OF run h1 h2 h3 h4 h5] have
    m2: "region_bytes st2 ?R = Some (concat (map (frag_bytes ?st0) ?bufs) @ drop (inp_bytes ?inp) xs)"
    and lc: "length (concat (map (frag_bytes ?st0) ?bufs)) = inp_bytes ?inp"
    by (simp_all add: inp_bytes_def)
  have fr: "map (frag_bytes ?st0) ?bufs = map (frag_bytes st) ?bufs"
  proof (rule map_cong [OF refl])
    fix f assume "f \<in> set ?bufs"
    with h2 obtain k i where "data f = Ptr (Caller k) i" by blast
    then show "frag_bytes ?st0 f = frag_bytes st f"
      by (intro frag_bytes_caller) (simp_all add: cm0)
  qed
  have m1: "region_bytes st1 ?R = Some (concat (map (frag_bytes st) ?bufs) @ drop (inp_bytes ?inp) xs)"
    using set_inputs_region_bytes [OF s, of ?R] m2 fr by simp
  have rd: "read_bytes st1 (data d) (unat (size_d d)) = Some (concat (map (frag_bytes st) ?bufs))"
    using m1 lc fr d by (simp add: read_bytes_def)
  let ?copies = "map (\<lambda>w. EvMemCopy (work w)) ?ws"
  from RunAll_effect [OF ra] r2 have t2: "trace st2 = trace st0 @ ?copies" by auto
  have t0: "trace st0 = trace st" using prepare_inputs_fields [OF p'] by simp
  have t1: "trace st1 = trace st @ ?copies @ map EvSetInput cs"
    using set_inputs_trace [OF s] t2 t0 by simp
  have lcs: "length cs = length inputs" using prepare_inputs_length [OF p'] by simp
  have c: "list_all is_mem_copy ?copies" by (simp add: list_all_iff)
  from t1 lcs c d(1) rd show ?thesis by blast
qed

section \<open>A failure of the pipeline, and the invocation after it\<close>

lemma presents_cong:
  "pl_device_id (pipeline st') = pl_device_id (pipeline st) \<Longrightarrow> presents st' = presents st"
  by (simp add: presents_def IsNoCopy_def DeviceId_def fun_eq_iff)

lemma prepare_input_succeeds:
  assumes "buffers inp \<noteq> []" and "inp_size api inp \<le> total_size (buffers inp)"
  shows "\<exists>c st1. prepare_input api st inp = (Inr c, st1)"
proof (cases "IsNoCopy st inp")
  case True
  then obtain f where "buffers inp = [f]"
    by (cases "buffers inp") (auto simp: IsNoCopy_def)
  with assms(2) True show ?thesis
    by (simp add: prepare_input_def total_size_sum)
next
  case False
  with assms show ?thesis
    by (simp add: prepare_input_def ScheduleInputCopy_eq Let_def GetDescr_def resized_simps)
qed

lemma prepare_inputs_succeeds:
  assumes "\<forall>inp \<in> set inputs. buffers inp \<noteq> [] \<and> inp_size api inp \<le> total_size (buffers inp)"
  shows "\<exists>cs st0. prepare_inputs api st inputs acc = (Inr cs, st0)"
  using assms
proof (induction inputs arbitrary: st acc)
  case Nil
  then show ?case by simp
next
  case (Cons inp rest)
  from Cons.prems prepare_input_succeeds [of inp api st]
  obtain c st1 where "prepare_input api st inp = (Inr c, st1)" by auto
  moreover from Cons.IH [of st1 "acc @ [c]"] Cons.prems
  obtain cs st0 where "prepare_inputs api st1 rest (acc @ [c]) = (Inr cs, st0)" by auto
  ultimately show ?case by simp
qed

lemma prepare_input_presents:
  assumes "pools_ok st" and "inp_bytes inp < 2 ^ 64"
    and "prepare_input api st inp = (Inr c, st1)"
  shows "presents st inp c"
proof (cases "IsNoCopy st inp")
  case True
  from prepare_input_no_copy(1) [OF True assms(3)] True show ?thesis
    by (simp add: presents_def)
next
  case False
  from prepare_input_staged [OF False assms(3)]
  have ne: "buffers inp \<noteq> []" and sc: "ScheduleInputCopy st inp = (Inr c, st1)" by simp_all
  from ScheduleInputCopy_effect(1) [OF assms(1) ne assms(2) sc]
  obtain d :: BufferDescr where "c = \<lparr>meta = meta inp, buffers = [d]\<rparr>"
    "data d = Ptr (inp_region inp) 0" "device d = inp_dev inp"
    "size_d d = sum_list (map size_d (buffers inp))"
    by auto
  with False show ?thesis
    by (simp add: presents_def total_size_sum)
qed

lemma prepare_inputs_presents:
  assumes "pools_ok st" and "\<forall>inp \<in> set inputs. inp_bytes inp < 2 ^ 64"
    and "prepare_inputs api st inputs acc = (Inr cs, st0)"
  shows "\<exists>cs'. cs = acc @ cs' \<and> list_all2 (presents st) inputs cs'"
  using assms
proof (induction inputs arbitrary: st acc)
  case Nil
  then show ?case by simp
next
  case (Cons inp rest)
  obtain r1 st1 where p: "prepare_input api st inp = (r1, st1)"
    by (cases "prepare_input api st inp")
  with Cons.prems(3) obtain c where c: "prepare_input api st inp = (Inr c, st1)"
    and rest: "prepare_inputs api st1 rest (acc @ [c]) = (Inr cs, st0)"
    by (cases r1) auto
  have ok1: "pools_ok st1" using Cons.prems(1) c by (rule prepare_input_pools_ok)
  have pr: "presents st1 = presents st"
    using prepare_input_fields(1) [OF c] by (intro presents_cong) simp
  have b: "\<forall>inp \<in> set rest. inp_bytes inp < 2 ^ 64" using Cons.prems(2) by simp
  from Cons.IH [OF ok1 b rest] obtain cs' where
    "cs = (acc @ [c]) @ cs'" "list_all2 (presents st1) rest cs'" by blast
  moreover have "presents st inp c"
    using Cons.prems(1) _ c by (rule prepare_input_presents) (use Cons.prems(2) in simp)
  ultimately have "cs = acc @ (c # cs') \<and> list_all2 (presents st) (inp # rest) (c # cs')"
    using pr by simp
  then show ?case by blast
qed

lemma set_inputs_handle:
  assumes "set_handle_inputs api (handle (pipeline st)) cs = (None, h1)"
  shows "\<exists>st1. set_inputs api st cs = (Inr (), st1) \<and> handle (pipeline st1) = h1"
  using assms
proof (induction cs arbitrary: st)
  case Nil
  then show ?case by simp
next
  case (Cons c cs)
  obtain x h0 where s: "SetInput api (handle (pipeline st)) c = (x, h0)"
    by (cases "SetInput api (handle (pipeline st)) c")
  with Cons.prems have x: "x = None" and r: "set_handle_inputs api h0 cs = (None, h1)"
    by (cases x; simp)+
  let ?st0 = "st\<lparr>pipeline := (pipeline st)\<lparr>handle := h0\<rparr>, trace := trace st @ [EvSetInput c]\<rparr>"
  have "set_handle_inputs api (handle (pipeline ?st0)) cs = (None, h1)" using r by simp
  from Cons.IH [OF this] obtain st1 where
    "set_inputs api ?st0 cs = (Inr (), st1)" "handle (pipeline st1) = h1" by blast
  with s x show ?case by (simp add: pipeline_SetInput_def)
qed

lemma pipeline_completes_Run_tail:
  assumes "pipeline_completes api (handle (pipeline st)) cs"
  shows "\<exists>st1 st2 ret. set_inputs api st cs = (Inr (), st1)
           \<and> run_and_output api st1 = (None, st2)
           \<and> output_infos api (pipeline st2) = Inr ret"
proof -
  from assms obtain h1 h2 h3 h4 where
    a: "set_handle_inputs api (handle (pipeline st)) cs = (None, h1)"
    and b: "daliOutputRelease api h1 = (None, h2)"
    and c: "daliRun api h2 = (None, h3)"
    and d: "daliOutput api h3 = (None, h4)"
    and e: "daliGetNumOutput api h4 \<le> length (GetOutputShapes api h4)"
    by (auto simp: pipeline_completes_def split: prod.splits option.splits)
  from set_inputs_handle [OF a] obtain st1 where
    s: "set_inputs api st cs = (Inr (), st1)" and h: "handle (pipeline st1) = h1" by blast
  let ?st2 = "st1\<lparr>pipeline := (pipeline st1)\<lparr>handle := h4\<rparr>, trace := trace st1 @ [EvRun, EvOutput]\<rparr>"
  have r: "run_and_output api st1 = (None, ?st2)"
    using h b c d by (simp add: run_and_output_def pipeline_Run_def pipeline_Output_def)
  have "\<exists>ret. output_infos api (pipeline ?st2) = Inr ret"
    using e by (simp add: output_infos_def GetNumOutput_def Let_def)
  with s r show ?thesis by blast
qed

lemma fragment_readableD:
  assumes "fragment_readable m f"
  shows "\<exists>k i ys. data f = Ptr (Caller k) i \<and> m k = Some ys \<and> i + unat (size_d f) \<le> length ys"
proof (cases "data f")
  case (Ptr r i)
  with assms show ?thesis
    by (cases r) (auto simp: fragment_readable_def split: option.splits)
qed

lemma pools_ok_caller_mem_upd [simp]: "pools_ok (st\<lparr>caller_mem := m\<rparr>) = pools_ok st"
  by (simp add: pools_ok_def pool_of_def split: device_type_t.splits)

text \<open>
  The copies of the staged inputs of one invocation complete: every fragment is read
  inside an allocation of the caller, and every copy writes inside the staging buffer of
  its input.
\<close>

lemma staged_copies_run:
  assumes ok: "pools_ok st" and q: "thread_pool st = []"
    and perm: "\<forall>q. mset (schedule api q) = mset q"
    and dn: "distinct (map (\<lambda>inp. name (meta inp)) inputs)"
    and vi: "\<forall>inp \<in> set inputs. valid_input api (caller_mem st) inp"
    and p: "prepare_inputs api st inputs [] = (Inr cs, st0)"
  shows "\<exists>st2. RunAll api st0 = (Inr (), st2) \<and> pipeline st2 = pipeline st"
proof -
  let ?staged = "filter (\<lambda>i. \<not> IsNoCopy st i) inputs"
  have dr: "distinct (map inp_region ?staged)" using dn by (rule distinct_regions_of_names)
  have nw: "\<forall>inp \<in> set inputs. inp_bytes inp < 2 ^ 64"
    using vi by (simp add: valid_input_def)
  from prepare_inputs_effect [OF ok p dr nw] have
    q0: "thread_pool st0 = concat (map inp_works ?staged)"
    and cm0: "caller_mem st0 = caller_mem st"
    and rg: "\<forall>inp \<in> set ?staged. buffers inp \<noteq> []
            \<and> (\<exists>xs. region_bytes st0 (inp_region inp) = Some xs \<and> inp_bytes inp \<le> length xs)"
    using q by simp_all
  let ?st0 = "st0\<lparr>thread_pool := []\<rparr>"
  let ?ws = "schedule api (thread_pool st0)"
  have sets: "set ?ws = set (thread_pool st0)"
    using perm by (metis mset_eq_setD)
  have mem: "\<exists>inp \<in> set ?staged. w \<in> set (inp_works inp)" if "w \<in> set ?ws" for w
    using that sets q0 by auto
  have h1: "\<forall>w \<in> set ?ws. \<exists>k i ys. src (work w) = Ptr (Caller k) i \<and> caller_mem ?st0 k = Some ys
              \<and> i + unat (nbytes (work w)) \<le> length ys"
  proof
    fix w assume "w \<in> set ?ws"
    from mem [OF this] obtain inp where i: "inp \<in> set inputs" and w: "w \<in> set (inp_works inp)"
      by auto
    from input_works_src [OF w [unfolded inp_works_def]] obtain f where
      f: "f \<in> set (buffers inp)" "src (work w) = data f" "nbytes (work w) = size_d f" by blast
    from vi i f(1) have "fragment_readable (caller_mem st) f"
      by (auto simp: valid_input_def list_all_iff)
    from fragment_readableD [OF this] f(2,3) cm0
    show "\<exists>k i ys. src (work w) = Ptr (Caller k) i \<and> caller_mem ?st0 k = Some ys
              \<and> i + unat (nbytes (work w)) \<le> length ys"
      by auto
  qed
  have h2: "\<forall>w \<in> set ?ws. \<exists>d key ys. ptr_region (dst (work w)) = Staging d key
              \<and> region_bytes ?st0 (Staging d key) = Some ys
              \<and> ptr_offset (dst (work w)) + unat (nbytes (work w)) \<le> length ys"
  proof
    fix w assume "w \<in> set ?ws"
    from mem [OF this] obtain inp where i: "inp \<in> set ?staged" and w: "w \<in> set (inp_works inp)"
      by auto
    from rg i obtain xs where
      xs: "region_bytes st0 (inp_region inp) = Some xs" "inp_bytes inp \<le> length xs" by blast
    have r: "ptr_region (dst (work w)) = inp_region inp" using w by (rule inp_works_region)
    have "ptr_offset (dst (work w)) + unat (nbytes (work w)) \<le> inp_bytes inp"
      using input_works_bound [OF w [unfolded inp_works_def]] by (simp add: inp_bytes_def)
    with xs r show "\<exists>d key ys. ptr_region (dst (work w)) = Staging d key
              \<and> region_bytes ?st0 (Staging d key) = Some ys
              \<and> ptr_offset (dst (work w)) + unat (nbytes (work w)) \<le> length ys"
      by (simp add: inp_region_def)
  qed
  from run_works_succeeds [OF h1 h2] obtain st2 where
    r: "run_works ?st0 ?ws = (Inr (), st2)" by blast
  from run_works_pipeline [OF r] prepare_inputs_fields [OF p]
  have "pipeline st2 = pipeline st" by simp
  with r show ?thesis by (simp add: RunAll_def)
qed

text \<open>
  An invocation on valid inputs returns its output metadata whenever the library
  completes, on the handle the executor holds, every presentation of the inputs.
\<close>

lemma Run_completes:
  assumes ok: "pools_ok st" and q: "thread_pool st = []"
    and perm: "\<forall>q. mset (schedule api q) = mset q"
    and vi: "valid_inputs api (caller_mem st) inputs"
    and lib: "\<forall>cs. list_all2 (presents st) inputs cs \<longrightarrow>
                pipeline_completes api (handle (pipeline st)) cs"
  shows "\<exists>ret st5. Run api st inputs = (Inr ret, st5)"
proof -
  from vi have ne: "inputs \<noteq> []"
    and bs: "list_all (\<lambda>inp. num_samples (shape (meta inp)) = num_samples (shape (meta (inputs ! 0))))
               (tl inputs)"
    and dn: "distinct (map (\<lambda>inp. name (meta inp)) inputs)"
    and va: "\<forall>inp \<in> set inputs. valid_input api (caller_mem st) inp"
    by (simp_all add: valid_inputs_def list_all_iff)
  from va have "\<forall>inp \<in> set inputs. buffers inp \<noteq> [] \<and> inp_size api inp \<le> total_size (buffers inp)"
    by (simp add: valid_input_def)
  from prepare_inputs_succeeds [OF this] obtain cs st0 where
    p: "prepare_inputs api st inputs [] = (Inr cs, st0)" by blast
  from va have nw: "\<forall>inp \<in> set inputs. inp_bytes inp < 2 ^ 64" by (simp add: valid_input_def)
  from prepare_inputs_presents [OF ok nw p] have "list_all2 (presents st) inputs cs" by simp
  with lib have pc: "pipeline_completes api (handle (pipeline st)) cs" by blast
  from staged_copies_run [OF ok q perm dn va p] obtain st2 where
    ra: "RunAll api st0 = (Inr (), st2)" and p2: "pipeline st2 = pipeline st" by blast
  from pc p2 have "pipeline_completes api (handle (pipeline st2)) cs" by simp
  from pipeline_completes_Run_tail [OF this] obtain st3 st4 ret where
    s: "set_inputs api st2 cs = (Inr (), st3)"
    and r: "run_and_output api st3 = (None, st4)"
    and o: "output_infos api (pipeline st4) = Inr ret"
    by blast
  have "SetupInputs api st inputs = (Inr (), st3)"
    using ne bs p ra s by (simp add: SetupInputs_def RunInputCopy_def)
  with r o have "Run api st inputs = (Inr ret, st4)" by (simp add: Run_def)
  then show ?thesis by blast
qed

lemma SetupInputs_logs_no_reset:
  assumes su: "SetupInputs api st inputs = (Inr (), st1)"
  shows "\<exists>evs. trace st1 = trace st @ evs \<and> EvReset \<notin> set evs"
proof -
  from su have ne: "inputs \<noteq> []" by (auto simp: SetupInputs_def split: if_splits)
  obtain r0 st0 where p: "prepare_inputs api st inputs [] = (r0, st0)"
    by (cases "prepare_inputs api st inputs []")
  with su ne obtain cs where r0: "r0 = Inr cs"
    by (cases r0) (auto simp: SetupInputs_def split: if_splits)
  obtain r2 st2 where ra: "RunAll api st0 = (r2, st2)"
    by (cases "RunAll api st0")
  with su ne p r0 have r2: "r2 = Inr ()"
    by (cases r2) (auto simp: SetupInputs_def RunInputCopy_def split: if_splits)
  from su ne p r0 ra r2 have s: "set_inputs api st2 cs = (Inr (), st1)"
    by (auto simp: SetupInputs_def RunInputCopy_def split: if_splits)
  let ?copies = "map (\<lambda>w. EvMemCopy (work w)) (schedule api (thread_pool st0))"
  from RunAll_effect [OF ra] r2 have t2: "trace st2 = trace st0 @ ?copies" by auto
  have t0: "trace st0 = trace st" using prepare_inputs_fields [OF p] by simp
  have "trace st1 = trace st @ (?copies @ map EvSetInput cs)"
    using set_inputs_trace [OF s] t2 t0 by simp
  moreover have "EvReset \<notin> set (?copies @ map EvSetInput cs)" by auto
  ultimately show ?thesis by blast
qed

text \<open>
  Claim C5, as the code has it. Let the inputs pass \<^verbatim>\<open>SetupInputs\<close> and let the pipeline's
  \<^verbatim>\<open>Run()\<close> or \<^verbatim>\<open>Output()\<close> throw. Then \<^verbatim>\<open>Run\<close> returns no output metadata, and up to
  the handler the invocation has logged no reset.

  If the exception is a \<^verbatim>\<open>std::runtime_error\<close>, the handler resets the pipeline, which is
  the last call logged, before anything reaches the caller. The new handle being valid,
  the caller gets the exception, and the executor holds a pipeline as its constructor
  leaves it and an empty queue of copies; the next invocation on that executor, whatever
  the caller's memory is by then, returns its output metadata for all valid inputs that
  the library completes on a newly created pipeline (the pools being typed, and the
  workers running every queued copy once).

  If the exception is of another class, it reaches the caller with the executor as the
  failed run left it: there is no reset.
\<close>

theorem Run_resets_pipeline_on_runtime_error_only:
  assumes su: "SetupInputs api st inputs = (Inr (), st1)"
    and ro: "run_and_output api st1 = (Some ex, st2)"
  shows "(\<exists>evs. trace st2 = trace st @ evs \<and> EvReset \<notin> set evs)
       \<and> (\<forall>ret. fst (Run api st inputs) \<noteq> Inr ret)
       \<and> (case ex of
            OtherException msg \<Rightarrow> Run api st inputs = (Inl (Thrown ex), st2)
          | RuntimeError msg \<Rightarrow>
              trace (snd (Run api st inputs)) = trace st2 @ [EvReset]
            \<and> (handle_valid api (handle (fresh_pipeline api (pipeline st))) \<longrightarrow>
                 (\<exists>st3. Run api st inputs = (Inl (Thrown ex), st3)
                    \<and> pipeline st3 = fresh_pipeline api (pipeline st)
                    \<and> thread_pool st3 = []
                    \<and> (\<forall>m inputs2.
                          pools_ok st
                        \<and> (\<forall>q. mset (schedule api q) = mset q)
                        \<and> valid_inputs api m inputs2
                        \<and> (\<forall>cs. list_all2 (presents st) inputs2 cs \<longrightarrow>
                               pipeline_completes api
                                 (handle (fresh_pipeline api (pipeline st))) cs)
                        \<longrightarrow> (\<exists>ret st5. Run api (st3\<lparr>caller_mem := m\<rparr>) inputs2
                                         = (Inr ret, st5))))))"
proof -
  have tr: "\<exists>evs. trace st2 = trace st @ evs \<and> EvReset \<notin> set evs"
  proof -
    from SetupInputs_logs_no_reset [OF su] obtain evs where
      e: "trace st1 = trace st @ evs" "EvReset \<notin> set evs" by blast
    from run_and_output_fields(3) [OF ro] e
    have "trace st2 = trace st @ (evs @ [EvRun]) \<and> EvReset \<notin> set (evs @ [EvRun])
        \<or> trace st2 = trace st @ (evs @ [EvRun, EvOutput]) \<and> EvReset \<notin> set (evs @ [EvRun, EvOutput])"
      by auto
    then show ?thesis by blast
  qed
  have cfg: "pl_config (pipeline st2) = pl_config (pipeline st)"
    using SetupInputs_success(2) [OF su] run_and_output_fields(2) [OF ro] by simp
  then have fr: "fresh_pipeline api (pipeline st2) = fresh_pipeline api (pipeline st)"
    by (rule fresh_pipeline_cong)
  have q2: "thread_pool st2 = []"
    using SetupInputs_success(1) [OF su] run_and_output_fields(1) [OF ro] by simp
  show ?thesis
  proof (cases ex)
    case (OtherException msg)
    with su ro have "Run api st inputs = (Inl (Thrown ex), st2)" by (simp add: Run_def)
    with tr OtherException show ?thesis by simp
  next
    case (RuntimeError msg)
    obtain f pl3 where rs: "Reset api (pipeline st2) = (f, pl3)"
      by (cases "Reset api (pipeline st2)")
    let ?st3 = "st2\<lparr>pipeline := pl3, trace := trace st2 @ [EvReset]\<rparr>"
    have run: "Run api st inputs = (case f of Some e \<Rightarrow> Inl e | None \<Rightarrow> Inl (Thrown ex), ?st3)"
      using su ro rs RuntimeError by (cases f) (simp_all add: Run_def)
    have a: "\<forall>ret. fst (Run api st inputs) \<noteq> Inr ret"
      using run by (cases f) simp_all
    have b: "trace (snd (Run api st inputs)) = trace st2 @ [EvReset]"
      using run by simp
    have c: "\<exists>st3. Run api st inputs = (Inl (Thrown ex), st3)
                    \<and> pipeline st3 = fresh_pipeline api (pipeline st)
                    \<and> thread_pool st3 = []
                    \<and> (\<forall>m inputs2.
                          pools_ok st
                        \<and> (\<forall>q. mset (schedule api q) = mset q)
                        \<and> valid_inputs api m inputs2
                        \<and> (\<forall>cs. list_all2 (presents st) inputs2 cs \<longrightarrow>
                               pipeline_completes api
                                 (handle (fresh_pipeline api (pipeline st))) cs)
                        \<longrightarrow> (\<exists>ret st5. Run api (st3\<lparr>caller_mem := m\<rparr>) inputs2
                                         = (Inr ret, st5)))"
      if hv: "handle_valid api (handle (fresh_pipeline api (pipeline st)))"
    proof -
      have "Reset api (pipeline st2) = (None, fresh_pipeline api (pipeline st))"
        using Reset_fresh [of api "pipeline st2"] hv fr by simp
      with rs have f: "f = None" and pl3: "pl3 = fresh_pipeline api (pipeline st)" by simp_all
      have r3: "Run api st inputs = (Inl (Thrown ex), ?st3)" using run f by simp
      have p3: "pipeline ?st3 = fresh_pipeline api (pipeline st)" using pl3 by simp
      have q3: "thread_pool ?st3 = []" using q2 by simp
      have rec: "\<exists>ret st5. Run api (?st3\<lparr>caller_mem := m\<rparr>) inputs2 = (Inr ret, st5)"
        if ok: "pools_ok st" and perm: "\<forall>q. mset (schedule api q) = mset q"
          and vi: "valid_inputs api m inputs2"
          and lib: "\<forall>cs. list_all2 (presents st) inputs2 cs \<longrightarrow>
                      pipeline_completes api (handle (fresh_pipeline api (pipeline st))) cs"
        for m inputs2
      proof -
        let ?s = "?st3\<lparr>caller_mem := m\<rparr>"
        have ok1: "pools_ok st1" using ok su by (rule SetupInputs_pools_ok)
        have "pools_ok st2"
          using ok1 ro
          by (auto simp: run_and_output_def split: prod.splits option.splits)
        then have oks: "pools_ok ?s" by simp
        have qs: "thread_pool ?s = []" using q2 by simp
        have vs: "valid_inputs api (caller_mem ?s) inputs2" using vi by simp
        have "pl_device_id (pipeline ?s) = pl_device_id (pipeline st)"
          using pl3 by (simp add: fresh_pipeline_def)
        then have pr: "presents ?s = presents st" by (rule presents_cong)
        have hs: "handle (pipeline ?s) = handle (fresh_pipeline api (pipeline st))"
          using pl3 by simp
        have libs: "\<forall>cs. list_all2 (presents ?s) inputs2 cs \<longrightarrow>
                      pipeline_completes api (handle (pipeline ?s)) cs"
          unfolding pr hs using lib .
        from Run_completes [OF oks qs perm vs libs] show ?thesis .
      qed
      from r3 p3 q3 rec show ?thesis by blast
    qed
    from tr a b c RuntimeError show ?thesis by simp
  qed
qed

lemma good_inputs_valid: "valid_inputs demo_api (caller_mem demo_exec) good_inputs"
  by (simp add: valid_inputs_def valid_input_def good_inputs_def fragment_readable_def
      inp_bytes_def inp_size_def total_size_def demo_input_def frag_def demo_exec_def
      demo_api_def)

lemma good_inputs_complete:
  "\<forall>cs. list_all2 (presents demo_exec) good_inputs cs \<longrightarrow>
     pipeline_completes demo_api (handle (fresh_pipeline demo_api (pipeline demo_exec))) cs"
  by (auto simp: good_inputs_def list_all2_Cons1 presents_def pipeline_completes_def
      fresh_pipeline_def demo_api_simps demo_input_simps)

theorem Run_resets_pipeline_on_runtime_error_only_witness:
  "Run demo_api demo_exec bad_inputs = (Inl (Thrown (RuntimeError ''bad input'')), after_bad)
   \<and> trace after_bad = [EvSetInput (demo_input ''bad'' 2 3 [frag 0 0 3 CPU 0]), EvRun, EvReset]
   \<and> pipeline after_bad = fresh_pipeline demo_api (pipeline demo_exec)
   \<and> thread_pool after_bad = []
   \<and> (\<exists>ret st5. Run demo_api after_bad good_inputs = (Inr ret, st5))"
proof -
  have v: "handle_valid demo_api (handle (fresh_pipeline demo_api (pipeline demo_exec)))"
    by (simp add: fresh_pipeline_def demo_api_simps)
  have perm: "\<forall>q. mset (schedule demo_api q) = mset q" by (simp add: demo_api_simps)
  from Run_resets_pipeline_on_runtime_error_only [OF bad_setup bad_run_and_output] v
  obtain st3 where
    r: "Run demo_api demo_exec bad_inputs = (Inl (Thrown (RuntimeError ''bad input'')), st3)"
    and p: "pipeline st3 = fresh_pipeline demo_api (pipeline demo_exec)"
    and q: "thread_pool st3 = []"
    and rec: "\<forall>m inputs2.
                pools_ok demo_exec
              \<and> (\<forall>q. mset (schedule demo_api q) = mset q)
              \<and> valid_inputs demo_api m inputs2
              \<and> (\<forall>cs. list_all2 (presents demo_exec) inputs2 cs \<longrightarrow>
                     pipeline_completes demo_api
                       (handle (fresh_pipeline demo_api (pipeline demo_exec))) cs)
              \<longrightarrow> (\<exists>ret st5. Run demo_api (st3\<lparr>caller_mem := m\<rparr>) inputs2 = (Inr ret, st5))"
    by auto
  from r bad_run have st3: "st3 = after_bad" by simp
  from rec pools_ok_demo perm good_inputs_valid good_inputs_complete
  have "\<exists>ret st5. Run demo_api (st3\<lparr>caller_mem := caller_mem demo_exec\<rparr>) good_inputs = (Inr ret, st5)"
    by blast
  moreover have "after_bad\<lparr>caller_mem := caller_mem demo_exec\<rparr> = after_bad"
    by (simp add: after_bad_def)
  ultimately have "\<exists>ret st5. Run demo_api after_bad good_inputs = (Inr ret, st5)"
    using st3 by simp
  moreover have "trace after_bad = [EvSetInput (demo_input ''bad'' 2 3 [frag 0 0 3 CPU 0]), EvRun, EvReset]"
    by (simp add: after_bad_def)
  ultimately show ?thesis using r p q st3 by simp
qed

text \<open>
  Claim C5 as stated does not hold of every failure of the pipeline: the handler of
  \<^verbatim>\<open>Run\<close> catches \<^verbatim>\<open>std::runtime_error\<close> only. In the small instance a run that fails with
  an exception of another class reaches the caller with no reset (none is logged, and
  the handle is not a new one), and the next invocation, with inputs that are valid on a
  new pipeline, fails as well.
\<close>

theorem Run_keeps_pipeline_on_other_exception:
  "Run demo_api demo_exec oom_inputs = (Inl (Thrown (OtherException ''bad_alloc'')), after_oom)
   \<and> fst (run_and_output demo_api (snd (SetupInputs demo_api demo_exec oom_inputs)))
       = Some (OtherException ''bad_alloc'')
   \<and> EvReset \<notin> set (trace after_oom)
   \<and> pipeline after_oom \<noteq> fresh_pipeline demo_api (pipeline demo_exec)
   \<and> fst (Run demo_api after_oom good_inputs) = Inl (Thrown (OtherException ''bad_alloc''))"
proof -
  have "fst (run_and_output demo_api (snd (SetupInputs demo_api demo_exec oom_inputs)))
       = Some (OtherException ''bad_alloc'')"
    by (simp add: oom_inputs_def demo_eval demo_exec_def)
  moreover have "EvReset \<notin> set (trace after_oom)"
    by (simp add: after_oom_def)
  moreover have "pipeline after_oom \<noteq> fresh_pipeline demo_api (pipeline demo_exec)"
    by (simp add: after_oom_def fresh_pipeline_def demo_api_simps demo_exec_def)
  ultimately show ?thesis
    using oom_run good_after_oom by simp
qed

text \<open>
  The reset is what the recovery rests on. In the small instance the inputs of the next
  invocation are valid and the library completes them on a newly created pipeline, and
  yet, after the failure that was not followed by a reset, the next invocation fails.
\<close>

lemma no_recovery_without_reset:
  "valid_inputs demo_api (caller_mem after_oom) good_inputs
   \<and> (\<forall>cs. list_all2 (presents after_oom) good_inputs cs \<longrightarrow>
          pipeline_completes demo_api (handle (fresh_pipeline demo_api (pipeline after_oom))) cs)
   \<and> pools_ok after_oom \<and> thread_pool after_oom = []
   \<and> fst (Run demo_api after_oom good_inputs) = Inl (Thrown (OtherException ''bad_alloc''))"
proof -
  have m: "caller_mem after_oom = caller_mem demo_exec" by (simp add: after_oom_def)
  have "pl_device_id (pipeline after_oom) = pl_device_id (pipeline demo_exec)"
    by (simp add: after_oom_def)
  then have pr: "presents after_oom = presents demo_exec" by (rule presents_cong)
  have fr: "fresh_pipeline demo_api (pipeline after_oom) = fresh_pipeline demo_api (pipeline demo_exec)"
    by (simp add: after_oom_def fresh_pipeline_def)
  have ok: "pools_ok after_oom" using pools_ok_demo by (simp add: after_oom_def)
  have q: "thread_pool after_oom = []" by (simp add: after_oom_def demo_exec_simps)
  from good_inputs_valid good_inputs_complete good_after_oom ok q show ?thesis
    unfolding m pr fr by simp
qed

end
